theory Spec2Isabelle
  imports Complex_Main "HOL-Library.Log_Nat" "HOL-Library.Multiset"
begin

text \<open>
  A shallow embedding of \<^verbatim>\<open>analyze_split\<close> of \<^verbatim>\<open>interactive_report.py\<close>:
  the split of a data frame into two groups at a percentile of its rows, sorted by
  \<^verbatim>\<open>2021_GDP\<close>, and the t-test and descriptive statistics of each group.
\<close>

section \<open>Python errors\<close>

text \<open>
  Every exception that \<open>analyze_split\<close> can raise is a value of \<open>py_error\<close>; a
  computation that may raise returns \<open>py_error + 'a\<close> with \<open>Inl\<close> for the exception.
\<close>

datatype py_error = KeyError string | OverflowError | ValueError | ZeroDivisionError

section \<open>Binary64 arithmetic of the cutoff computation\<close>

text \<open>
  Line 26 computes \<^verbatim>\<open>int(len(data_sorted) * (percentile_threshold / 100))\<close>.
  With an integer percentile, \<^verbatim>\<open>/\<close> is Python's true division of two ints
  (correctly rounded to binary64, \<^verbatim>\<open>OverflowError\<close> when the quotient is too
  large), \<^verbatim>\<open>*\<close> converts the int to binary64 and multiplies in binary64
  (an overflow gives an infinity), and \<^verbatim>\<open>int\<close> truncates towards zero
  (\<^verbatim>\<open>OverflowError\<close> on an infinity, \<^verbatim>\<open>ValueError\<close> on a NaN).
  The result is an integer that depends on the rounding, so binary64 is modelled exactly:
  a finite value is the rational it denotes, and every operation rounds the exact result
  to the nearest value with a 53-bit significand, ties to even, with the smallest exponent
  \<open>-1074\<close> and overflow from \<open>2^1024\<close> on.
\<close>

definition rne :: "rat \<Rightarrow> int" where
  "rne x = (let f = \<lfloor>x\<rfloor>; r = x - of_int f
            in if r < 1/2 then f else if 1/2 < r then f + 1
               else if even f then f else f + 1)"

definition ilog2 :: "rat \<Rightarrow> int" where
  "ilog2 x = (let (a, b) = quotient_of x; k = bitlen a - bitlen b
              in if 2 powi k \<le> x then k else k - 1)"

definition ulp_exp :: "rat \<Rightarrow> int" where
  "ulp_exp q = max (ilog2 \<bar>q\<bar> - 52) (- 1074)"

definition round_double :: "rat \<Rightarrow> rat" where
  "round_double q = (if q = 0 then 0
     else of_int (rne (q / 2 powi ulp_exp q)) * 2 powi ulp_exp q)"

datatype double = Finite rat | PosInf | NegInf | NotANumber

definition ieee_result :: "rat \<Rightarrow> double" where
  "ieee_result q = (let r = round_double q
     in if 2 ^ 1024 \<le> r then PosInf else if r \<le> - (2 ^ 1024) then NegInf else Finite r)"

definition long_true_divide :: "int \<Rightarrow> int \<Rightarrow> py_error + double" where
  "long_true_divide a b =
     (if b = 0 then Inl ZeroDivisionError
      else case ieee_result (of_int a / of_int b) of
             Finite r \<Rightarrow> Inr (Finite r)
           | _ \<Rightarrow> Inl OverflowError)"

definition long_as_double :: "int \<Rightarrow> py_error + double" where
  "long_as_double n =
     (case ieee_result (of_int n) of
        Finite r \<Rightarrow> Inr (Finite r)
      | _ \<Rightarrow> Inl OverflowError)"

fun is_negative :: "double \<Rightarrow> bool" where
  "is_negative (Finite a) = (a < 0)"
| "is_negative NegInf = True"
| "is_negative _ = False"

fun float_mul :: "double \<Rightarrow> double \<Rightarrow> double" where
  "float_mul (Finite a) (Finite b) = ieee_result (a * b)"
| "float_mul NotANumber _ = NotANumber"
| "float_mul _ NotANumber = NotANumber"
| "float_mul x y =
     (if x = Finite 0 \<or> y = Finite 0 then NotANumber
      else if is_negative x = is_negative y then PosInf else NegInf)"

definition int_mul_float :: "int \<Rightarrow> double \<Rightarrow> py_error + double" where
  "int_mul_float n x =
     (case long_as_double n of Inl e \<Rightarrow> Inl e | Inr nf \<Rightarrow> Inr (float_mul nf x))"

definition trunc_int :: "rat \<Rightarrow> int" where
  "trunc_int r = (if 0 \<le> r then \<lfloor>r\<rfloor> else \<lceil>r\<rceil>)"

fun float_to_int :: "double \<Rightarrow> py_error + int" where
  "float_to_int (Finite r) = Inr (trunc_int r)"
| "float_to_int NotANumber = Inl ValueError"
| "float_to_int _ = Inl OverflowError"

text \<open>Lines 26 and 29: the cutoff index for a frame of \<open>n\<close> rows.\<close>

definition cutoff_idx :: "nat \<Rightarrow> int \<Rightarrow> py_error + int" where
  "cutoff_idx n percentile_threshold =
     (case long_true_divide percentile_threshold 100 of
        Inl e \<Rightarrow> Inl e
      | Inr x \<Rightarrow>
          (case int_mul_float (int n) x of
             Inl e \<Rightarrow> Inl e
           | Inr y \<Rightarrow>
               (case float_to_int y of
                  Inl e \<Rightarrow> Inl e
                | Inr c \<Rightarrow> Inr (max 1 (min c (int n - 1))))))"

text \<open>The binary64 product that line 26 truncates, when no step overflows.\<close>

definition raw_cutoff :: "nat \<Rightarrow> int \<Rightarrow> rat" where
  "raw_cutoff n p = round_double (round_double (of_nat n) * round_double (of_int p / 100))"

text \<open>
  The cutoff in the words of the specification: \<open>floor(len * percentile / 100)\<close> in exact
  arithmetic, clamped to the range from 1 to \<open>len - 1\<close>.
\<close>

definition spec_cutoff :: "nat \<Rightarrow> int \<Rightarrow> int" where
  "spec_cutoff n percentile =
     max 1 (min \<lfloor>rat_of_nat n * rat_of_int percentile / 100\<rfloor> (int n - 1))"

section \<open>Data frames\<close>

text \<open>
  A float64 cell is a real number or missing (NaN, \<open>None\<close>). A row gives a cell for
  each column name; only the names listed in \<open>columns\<close> exist in the frame, and asking
  for another one raises \<^verbatim>\<open>KeyError\<close>.
\<close>

type_synonym cell = "real option"

type_synonym row = "string \<Rightarrow> cell"

record dataframe =
  columns :: "string list"
  rows :: "row list"

definition get_column :: "dataframe \<Rightarrow> string \<Rightarrow> py_error + cell list" where
  "get_column df c =
     (if c \<in> set (columns df) then Inr (map (\<lambda>r. r c) (rows df)) else Inl (KeyError c))"

text \<open>
  \<^verbatim>\<open>sort_values(by=..., ascending=False)\<close> with pandas' defaults
  (\<^verbatim>\<open>kind='quicksort'\<close>, \<^verbatim>\<open>na_position='last'\<close>): the indexer puts the
  rows with a value first, in descending order, and the rows without one last, in their
  original order. pandas computes it by reversing the values, calling numpy's
  \<^verbatim>\<open>argsort\<close> and reversing the result. numpy's routine is not part of
  the repository; it is the parameter \<open>argsort\<close>, of which only the contract
  \<open>argsort_sorts\<close> is assumed: the result is a permutation of the positions that
  puts the values in ascending order. How it orders equal values is left open.
\<close>

definition argsort_sorts :: "(real list \<Rightarrow> nat list) \<Rightarrow> bool" where
  "argsort_sorts argsort \<longleftrightarrow>
     (\<forall>xs. distinct (argsort xs) \<and> set (argsort xs) = {..<length xs} \<and>
           sorted (map (\<lambda>i. xs ! i) (argsort xs)))"

definition nargsort :: "(real list \<Rightarrow> nat list) \<Rightarrow> cell list \<Rightarrow> nat list" where
  "nargsort argsort items =
     (let idx = [0..<length items];
          non_nan_idx = rev (filter (\<lambda>i. items ! i \<noteq> None) idx);
          non_nans = map (\<lambda>i. the (items ! i)) non_nan_idx;
          nan_idx = filter (\<lambda>i. items ! i = None) idx
      in rev (map (\<lambda>j. non_nan_idx ! j) (argsort non_nans)) @ nan_idx)"

definition sort_values ::
  "(real list \<Rightarrow> nat list) \<Rightarrow> dataframe \<Rightarrow> string \<Rightarrow> py_error + dataframe" where
  "sort_values argsort df by =
     (case get_column df by of
        Inl e \<Rightarrow> Inl e
      | Inr k \<Rightarrow> Inr (df\<lparr>rows := map (\<lambda>i. rows df ! i) (nargsort argsort k)\<rparr>))"

text \<open>\<^verbatim>\<open>iloc[:c]\<close> and \<^verbatim>\<open>iloc[c:]\<close>; a negative bound counts from the end.\<close>

definition slice_bound :: "nat \<Rightarrow> int \<Rightarrow> nat" where
  "slice_bound n c = (if 0 \<le> c then nat c else nat (int n + c))"

definition iloc_upto :: "int \<Rightarrow> dataframe \<Rightarrow> dataframe" where
  "iloc_upto c df = df\<lparr>rows := take (slice_bound (length (rows df)) c) (rows df)\<rparr>"

definition iloc_from :: "int \<Rightarrow> dataframe \<Rightarrow> dataframe" where
  "iloc_from c df = df\<lparr>rows := drop (slice_bound (length (rows df)) c) (rows df)\<rparr>"

text \<open>Lines 23 to 33 of \<open>analyze_split\<close>: sort, cutoff, the two groups.\<close>

text \<open>
  The order of the sorted rank column: a value may stand before a smaller or equal value
  and before a missing one, a missing one only before a missing one.
\<close>

fun rank_order :: "cell \<Rightarrow> cell \<Rightarrow> bool" where
  "rank_order (Some x) (Some y) = (y \<le> x)"
| "rank_order None (Some y) = False"
| "rank_order _ None = True"

text \<open>The comparison \<^verbatim>\<open>a >= b\<close> of two float64 cells: false when one is NaN.\<close>

fun cell_ge :: "cell \<Rightarrow> cell \<Rightarrow> bool" where
  "cell_ge (Some x) (Some y) = (y \<le> x)"
| "cell_ge _ _ = False"

definition split_groups ::
  "(real list \<Rightarrow> nat list) \<Rightarrow> dataframe \<Rightarrow> int \<Rightarrow> py_error + dataframe \<times> dataframe" where
  "split_groups argsort data percentile_threshold =
     (case sort_values argsort data ''2021_GDP'' of
        Inl e \<Rightarrow> Inl e
      | Inr data_sorted \<Rightarrow>
          (case cutoff_idx (length (rows data_sorted)) percentile_threshold of
             Inl e \<Rightarrow> Inl e
           | Inr cutoff \<Rightarrow> Inr (iloc_upto cutoff data_sorted, iloc_from cutoff data_sorted)))"

section \<open>Statistics of a group\<close>

text \<open>
  The statistics are float64 values computed by pandas and SciPy. Their arithmetic is
  modelled over the reals (no rounding), with NaN and the two infinities as values of
  their own: \<open>npfloat\<close>. Comparisons with NaN are false, a division follows IEEE 754
  (signed zeros apart).
\<close>

datatype npfloat = Fin real | PInf | NInf | NaN

fun flt :: "npfloat \<Rightarrow> npfloat \<Rightarrow> bool" where
  "flt NaN _ = False"
| "flt _ NaN = False"
| "flt (Fin a) (Fin b) = (a < b)"
| "flt (Fin a) PInf = True"
| "flt (Fin a) NInf = False"
| "flt NInf NInf = False"
| "flt NInf _ = True"
| "flt PInf _ = False"

definition fgt :: "npfloat \<Rightarrow> npfloat \<Rightarrow> bool" where
  "fgt a b = flt b a"

fun fneg :: "npfloat \<Rightarrow> npfloat" where
  "fneg (Fin a) = Fin (- a)"
| "fneg PInf = NInf"
| "fneg NInf = PInf"
| "fneg NaN = NaN"

fun fdiv :: "npfloat \<Rightarrow> npfloat \<Rightarrow> npfloat" where
  "fdiv NaN _ = NaN"
| "fdiv _ NaN = NaN"
| "fdiv (Fin a) (Fin b) =
     (if b \<noteq> 0 then Fin (a / b) else if 0 < a then PInf else if a < 0 then NInf else NaN)"
| "fdiv (Fin a) _ = Fin 0"
| "fdiv PInf (Fin b) = (if 0 \<le> b then PInf else NInf)"
| "fdiv NInf (Fin b) = (if 0 \<le> b then NInf else PInf)"
| "fdiv _ _ = NaN"

fun fsub :: "npfloat \<Rightarrow> npfloat \<Rightarrow> npfloat" where
  "fsub NaN _ = NaN"
| "fsub _ NaN = NaN"
| "fsub (Fin a) (Fin b) = Fin (a - b)"
| "fsub (Fin a) y = fneg y"
| "fsub x (Fin b) = x"
| "fsub x y = (if x = y then NaN else x)"

fun fsqrt :: "npfloat \<Rightarrow> npfloat" where
  "fsqrt (Fin a) = (if a < 0 then NaN else Fin (sqrt a))"
| "fsqrt PInf = PInf"
| "fsqrt _ = NaN"

text \<open>pandas' reductions of a column; all of them skip the missing cells.\<close>

definition dropna :: "cell list \<Rightarrow> real list" where
  "dropna xs = List.map_filter (\<lambda>c. c) xs"

definition series_count :: "cell list \<Rightarrow> nat" where
  "series_count xs = length (dropna xs)"

definition series_sum :: "cell list \<Rightarrow> npfloat" where
  "series_sum xs = Fin (sum_list (dropna xs))"

definition mean_of :: "real list \<Rightarrow> real" where
  "mean_of v = sum_list v / real (length v)"

definition moment_sum :: "nat \<Rightarrow> real list \<Rightarrow> real" where
  "moment_sum k v = (\<Sum>x\<leftarrow>v. (x - mean_of v) ^ k)"

definition series_mean :: "cell list \<Rightarrow> npfloat" where
  "series_mean xs = (let v = dropna xs in if v = [] then NaN else Fin (mean_of v))"

definition series_var :: "cell list \<Rightarrow> npfloat" where
  "series_var xs =
     (let v = dropna xs
      in if length v \<le> 1 then NaN else Fin (moment_sum 2 v / real (length v - 1)))"

definition series_std :: "cell list \<Rightarrow> npfloat" where
  "series_std xs = fsqrt (series_var xs)"

definition series_median :: "cell list \<Rightarrow> npfloat" where
  "series_median xs =
     (let v = sort (dropna xs); n = length v
      in if n = 0 then NaN
         else if odd n then Fin (v ! (n div 2))
         else Fin ((v ! (n div 2 - 1) + v ! (n div 2)) / 2))"

definition series_min :: "cell list \<Rightarrow> npfloat" where
  "series_min xs = (let v = dropna xs in if v = [] then NaN else Fin (Min (set v)))"

definition series_max :: "cell list \<Rightarrow> npfloat" where
  "series_max xs = (let v = dropna xs in if v = [] then NaN else Fin (Max (set v)))"

definition series_skew :: "cell list \<Rightarrow> npfloat" where
  "series_skew xs =
     (let v = dropna xs; n = real (length v); m2 = moment_sum 2 v; m3 = moment_sum 3 v
      in if length v < 3 then NaN
         else if m2 = 0 then Fin 0
         else Fin ((n * sqrt (n - 1) / (n - 2)) * (m3 / (m2 * sqrt m2))))"

definition series_kurt :: "cell list \<Rightarrow> npfloat" where
  "series_kurt xs =
     (let v = dropna xs; n = real (length v); m2 = moment_sum 2 v; m4 = moment_sum 4 v;
          adj = 3 * (n - 1) ^ 2 / ((n - 2) * (n - 3));
          numerator = n * (n + 1) * (n - 1) * m4;
          denominator = (n - 2) * (n - 3) * m2 ^ 2
      in if length v < 4 then NaN
         else if denominator = 0 then Fin 0
         else Fin (numerator / denominator - adj))"

text \<open>Lines 49 to 62: the twelve metrics of one column.\<close>

record descriptive_stats =
  st_mean :: npfloat
  st_standard_error :: npfloat
  st_median :: npfloat
  st_standard_deviation :: npfloat
  st_sample_variance :: npfloat
  st_kurtosis :: npfloat
  st_skewness :: npfloat
  st_range :: npfloat
  st_minimum :: npfloat
  st_maximum :: npfloat
  st_sum :: npfloat
  st_count :: nat

text \<open>
  Line 51, \<^verbatim>\<open>group[year].std() / (len(group[year]) ** 0.5)\<close>. On a column with
  rows, \<^verbatim>\<open>std()\<close> is a numpy float64 and the divisor is positive: the division
  is numpy's and raises nothing. On a column of no rows, pandas returns the Python float
  \<^verbatim>\<open>nan\<close> for \<^verbatim>\<open>std()\<close>, the divisor is \<^verbatim>\<open>0 ** 0.5 = 0.0\<close>, and
  the division is Python's, which raises \<^verbatim>\<open>ZeroDivisionError\<close>.
\<close>

definition standard_error :: "cell list \<Rightarrow> py_error + npfloat" where
  "standard_error col =
     (if col = [] then Inl ZeroDivisionError
      else Inr (fdiv (series_std col) (Fin (sqrt (real (length col))))))"

definition describe :: "cell list \<Rightarrow> py_error + descriptive_stats" where
  "describe col =
     (case standard_error col of
        Inl e \<Rightarrow> Inl e
      | Inr se \<Rightarrow>
          Inr \<lparr> st_mean = series_mean col,
                st_standard_error = se,
                st_median = series_median col,
                st_standard_deviation = series_std col,
                st_sample_variance = series_var col,
                st_kurtosis = series_kurt col,
                st_skewness = series_skew col,
                st_range = fsub (series_max col) (series_min col),
                st_minimum = series_min col,
                st_maximum = series_max col,
                st_sum = series_sum col,
                st_count = series_count col \<rparr>)"

text \<open>
  \<^verbatim>\<open>ttest_ind(a, b, nan_policy='omit')\<close>: the two-sample test with pooled
  variance. The missing cells of each sample are dropped, an empty sample gives NaN for
  both results, and a sample of one observation counts with variance zero. The p-value is
  SciPy's two-sided tail probability of Student's distribution; it is the parameter
  \<open>t_pvalue\<close> (statistic and degrees of freedom to p-value), about which nothing is
  assumed.
\<close>

record ttest_result =
  tt_statistic :: npfloat
  tt_pvalue :: npfloat

definition sample_var0 :: "real list \<Rightarrow> real" where
  "sample_var0 v = (if length v = 1 then 0 else moment_sum 2 v / (real (length v) - 1))"

definition ttest_ind ::
  "(npfloat \<Rightarrow> real \<Rightarrow> npfloat) \<Rightarrow> cell list \<Rightarrow> cell list \<Rightarrow> ttest_result" where
  "ttest_ind t_pvalue a b =
     (let x = dropna a; y = dropna b; n1 = real (length x); n2 = real (length y)
      in if x = [] \<or> y = [] then \<lparr> tt_statistic = NaN, tt_pvalue = NaN \<rparr>
         else
           let df = n1 + n2 - 2;
               svar = fdiv (Fin ((n1 - 1) * sample_var0 x + (n2 - 1) * sample_var0 y)) (Fin df);
               denom = fsqrt (case svar of Fin s \<Rightarrow> Fin (s * (1 / n1 + 1 / n2)) | z \<Rightarrow> z);
               t = fdiv (Fin (mean_of x - mean_of y)) denom
           in \<lparr> tt_statistic = t, tt_pvalue = t_pvalue t df \<rparr>)"

text \<open>
  Lines 42 to 70: the body of the loop over the two groups. The statistics of
  \<^verbatim>\<open>2019_HE\<close> come first; on a group of no rows line 51 raises there.
\<close>

record group_result =
  gr_data :: dataframe
  gr_pvalue :: npfloat
  gr_statistic :: npfloat
  gr_significant :: bool
  gr_stats :: "(string \<times> descriptive_stats) list"

definition analyze_group ::
  "(npfloat \<Rightarrow> real \<Rightarrow> npfloat) \<Rightarrow> dataframe \<Rightarrow> py_error + group_result" where
  "analyze_group t_pvalue group_df =
     (case get_column group_df ''2021_HE'' of
        Inl e \<Rightarrow> Inl e
      | Inr he_2021 \<Rightarrow>
          (case get_column group_df ''2019_HE'' of
             Inl e \<Rightarrow> Inl e
           | Inr he_2019 \<Rightarrow>
               let t_test_result = ttest_ind t_pvalue he_2021 he_2019;
                   one_tailed_pvalue = fdiv (tt_pvalue t_test_result) (Fin 2)
               in (case describe he_2019 of
                     Inl e \<Rightarrow> Inl e
                   | Inr stats_2019 \<Rightarrow>
                       (case describe he_2021 of
                          Inl e \<Rightarrow> Inl e
                        | Inr stats_2021 \<Rightarrow>
                            Inr \<lparr> gr_data = group_df,
                                  gr_pvalue = one_tailed_pvalue,
                                  gr_statistic = tt_statistic t_test_result,
                                  gr_significant =
                                    (flt one_tailed_pvalue (Fin (5 / 100)) \<and>
                                     fgt (tt_statistic t_test_result) (Fin 0)),
                                  gr_stats = [(''2019_HE'', stats_2019),
                                              (''2021_HE'', stats_2021)] \<rparr>))))"

text \<open>The group labels, \<^verbatim>\<open>f"Top {p}%"\<close> and \<^verbatim>\<open>f"Bottom {100-p}%"\<close>.\<close>

function str_nat :: "nat \<Rightarrow> string" where
  "str_nat n =
     (if n < 10 then [char_of (48 + n)]
      else str_nat (n div 10) @ [char_of (48 + n mod 10)])"
  by pat_completeness auto
termination
  by (relation "measure (\<lambda>n. n)") auto

definition str_int :: "int \<Rightarrow> string" where
  "str_int i = (if i < 0 then CHR ''-'' # str_nat (nat (- i)) else str_nat (nat i))"

text \<open>The whole of \<open>analyze_split\<close>: the dictionary, in insertion order.\<close>

definition analyze_split ::
  "(real list \<Rightarrow> nat list) \<Rightarrow> (npfloat \<Rightarrow> real \<Rightarrow> npfloat) \<Rightarrow> dataframe \<Rightarrow> int
     \<Rightarrow> py_error + (string \<times> group_result) list" where
  "analyze_split argsort t_pvalue data percentile_threshold =
     (case split_groups argsort data percentile_threshold of
        Inl e \<Rightarrow> Inl e
      | Inr (upper_group, lower_group) \<Rightarrow>
          (case analyze_group t_pvalue upper_group of
             Inl e \<Rightarrow> Inl e
           | Inr upper_result \<Rightarrow>
               (case analyze_group t_pvalue lower_group of
                  Inl e \<Rightarrow> Inl e
                | Inr lower_result \<Rightarrow>
                    Inr [(''Top '' @ str_int percentile_threshold @ ''%'', upper_result),
                         (''Bottom '' @ str_int (100 - percentile_threshold) @ ''%'',
                          lower_result)])))"

section \<open>Concrete frames and a concrete sorting routine\<close>

text \<open>
  For the examples: a frame with the three columns the analysis reads, and an
  \<open>argsort\<close> that meets the contract (the stable one, numpy's \<^verbatim>\<open>kind='stable'\<close>).
\<close>

definition he_row :: "cell \<Rightarrow> cell \<Rightarrow> cell \<Rightarrow> row" where
  "he_row gdp he19 he21 =
     (\<lambda>c. if c = ''2021_GDP'' then gdp else if c = ''2019_HE'' then he19
          else if c = ''2021_HE'' then he21 else None)"

definition he_frame :: "row list \<Rightarrow> dataframe" where
  "he_frame rs = \<lparr> columns = [''2021_GDP'', ''2019_HE'', ''2021_HE''], rows = rs \<rparr>"

definition stable_argsort :: "real list \<Rightarrow> nat list" where
  "stable_argsort xs = sort_key (\<lambda>i. xs ! i) [0..<length xs]"

definition two_rows :: dataframe where
  "two_rows = he_frame [he_row (Some 2) (Some 1) (Some 3), he_row (Some 1) (Some 2) (Some 5)]"

definition one_row :: dataframe where
  "one_row = he_frame [he_row (Some 1) (Some 2) (Some 3)]"

definition nan_rank_rows :: dataframe where
  "nan_rank_rows = he_frame [he_row (Some 5) (Some 1) (Some 3), he_row None (Some 2) (Some 5)]"

definition four_rows :: dataframe where
  "four_rows = he_frame
     [he_row (Some 3) (Some 1) (Some 2), he_row None (Some 2) None,
      he_row (Some 7) (Some 3) (Some 5), he_row (Some 3) None (Some 4)]"


definition nan_he_rows :: dataframe where
  "nan_he_rows = he_frame [he_row (Some 2) (Some 1) None, he_row (Some 1) (Some 2) None]"

definition no_he_rows :: dataframe where
  "no_he_rows = \<lparr> columns = [''2021_GDP'', ''2019_HE''],
                  rows = [he_row (Some 2) (Some 1) None, he_row (Some 1) (Some 2) None] \<rparr>"

text \<open>
  For the examples with two observations in each sample: the two-sided tail probability
  of Student's distribution with two degrees of freedom, which has a closed form.
\<close>

fun student_t2_pvalue :: "npfloat \<Rightarrow> real \<Rightarrow> npfloat" where
  "student_t2_pvalue (Fin t) df = Fin (1 - \<bar>t\<bar> / sqrt (2 + t\<^sup>2))"
| "student_t2_pvalue NaN df = NaN"
| "student_t2_pvalue _ df = Fin 0"

definition ten_rows :: dataframe where
  "ten_rows = he_frame (map (\<lambda>i. he_row (Some (10 * real i)) (Some 1) (Some 2)) [1..<11])"

definition ninety_rows :: dataframe where
  "ninety_rows = he_frame (map (\<lambda>i. he_row (Some (real i)) (Some 1) (Some 2)) [0..<90])"

text \<open>The claim that every rank of the upper group is at least every rank of the lower one.\<close>

definition rank_dominates :: "dataframe \<Rightarrow> dataframe \<Rightarrow> bool" where
  "rank_dominates upper lower \<longleftrightarrow>
     (\<forall>u\<in>set (rows upper). \<forall>l\<in>set (rows lower). cell_ge (u ''2021_GDP'') (l ''2021_GDP''))"

section \<open>Rounding to binary64\<close>

subsection \<open>Round half to even\<close>

lemma rne_cases:
  "rne x = \<lfloor>x\<rfloor> \<or> rne x = \<lfloor>x\<rfloor> + 1"
  by (simp add: rne_def Let_def)

lemma rne_of_int [simp]: "rne (of_int k) = k"
  by (simp add: rne_def)

lemma rne_ge_floor: "\<lfloor>x\<rfloor> \<le> rne x"
  using rne_cases [of x] by linarith

lemma rne_le_floor1: "rne x \<le> \<lfloor>x\<rfloor> + 1"
  using rne_cases [of x] by linarith

lemma rne_mono:
  assumes "x \<le> y"
  shows "rne x \<le> rne y"
proof (cases "\<lfloor>x\<rfloor> = \<lfloor>y\<rfloor>")
  case True
  have "x - of_int \<lfloor>x\<rfloor> \<le> y - of_int \<lfloor>y\<rfloor>"
    using assms True by simp
  then show ?thesis
    using True by (auto simp: rne_def Let_def)
next
  case False
  have "\<lfloor>x\<rfloor> \<le> \<lfloor>y\<rfloor>"
    using assms by (rule floor_mono)
  with False have "\<lfloor>x\<rfloor> + 1 \<le> \<lfloor>y\<rfloor>"
    by linarith
  then show ?thesis
    using rne_le_floor1 [of x] rne_ge_floor [of y] by linarith
qed

lemma rne_error: "\<bar>of_int (rne x) - x\<bar> \<le> 1/2"
proof -
  have "of_int \<lfloor>x\<rfloor> \<le> x" "x < of_int \<lfloor>x\<rfloor> + 1"
    by linarith+
  then show ?thesis
    by (auto simp: rne_def Let_def abs_le_iff)
qed

lemma rne_minus: "rne (- x) = - rne x"
proof (cases "x = of_int \<lfloor>x\<rfloor>")
  case True
  then obtain k where "x = of_int k" ..
  then show ?thesis
    by (simp flip: of_int_minus)
next
  case False
  have "\<lceil>x\<rceil> = \<lfloor>x\<rfloor> + 1"
    using False by (simp add: ceiling_altdef)
  then have fl: "\<lfloor>- x\<rfloor> = - \<lfloor>x\<rfloor> - 1"
    by (simp add: ceiling_def)
  have pos: "0 < x - of_int \<lfloor>x\<rfloor>"
    using False by (metis diff_gt_0_iff_gt of_int_floor_le order_le_less)
  have par: "even (- \<lfloor>x\<rfloor> - 1) \<longleftrightarrow> odd \<lfloor>x\<rfloor>"
    by simp
  consider "x - of_int \<lfloor>x\<rfloor> < 1/2" | "1/2 < x - of_int \<lfloor>x\<rfloor>"
    | "x - of_int \<lfloor>x\<rfloor> = 1/2"
    by linarith
  then show ?thesis
  proof cases
    case 1
    then show ?thesis
      unfolding rne_def Let_def fl by simp
  next
    case 2
    then show ?thesis
      unfolding rne_def Let_def fl by simp
  next
    case 3
    then have "- x - of_int (- \<lfloor>x\<rfloor> - 1) = 1/2"
      by simp
    with 3 show ?thesis
      unfolding rne_def Let_def fl par by simp
  qed
qed

subsection \<open>The binary logarithm\<close>

lemma bitlen_powi_bounds:
  assumes "0 < a"
  shows "(2::rat) powi (bitlen a - 1) \<le> of_int a" "rat_of_int a < 2 powi (bitlen a)"
proof -
  have b: "2 ^ nat (bitlen a - 1) \<le> a" "a < 2 ^ nat (bitlen a)"
    using bitlen_bounds [OF assms] by simp_all
  have ge1: "1 \<le> bitlen a"
    using assms bitlen_eq_zero_iff [of a] bitlen_nonneg [of a] by linarith
  have "rat_of_int (2 ^ nat (bitlen a - 1)) \<le> of_int a"
    using b(1) by (simp only: of_int_le_iff)
  then show "(2::rat) powi (bitlen a - 1) \<le> of_int a"
    using ge1 by (simp add: power_int_def)
  have "rat_of_int a < of_int (2 ^ nat (bitlen a))"
    using b(2) by (simp only: of_int_less_iff)
  then show "rat_of_int a < 2 powi (bitlen a)"
    using ge1 by (simp add: power_int_def)
qed

lemma ilog2_bounds:
  assumes "0 < x"
  shows "2 powi (ilog2 x) \<le> x" "x < 2 powi (ilog2 x + 1)"
proof -
  obtain a b where q: "quotient_of x = (a, b)"
    by (cases "quotient_of x")
  have bpos: "0 < b"
    using q quotient_of_denom_pos by blast
  have x: "x = of_int a / of_int b"
    using q by (rule quotient_of_div)
  have apos: "0 < a"
    using assms bpos x by (simp add: zero_less_divide_iff)
  define k where "k = bitlen a - bitlen b"
  have il: "ilog2 x = (if 2 powi k \<le> x then k else k - 1)"
    by (simp add: ilog2_def q k_def)
  have bp: "0 < rat_of_int b" using bpos by simp
  have up: "x < 2 powi (k + 1)"
  proof -
    have "of_int a < (2::rat) powi (bitlen a)"
      using bitlen_powi_bounds(2) [OF apos] .
    also have "\<dots> = 2 powi (k + 1) * 2 powi (bitlen b - 1)"
      by (simp add: k_def flip: power_int_add)
    also have "\<dots> \<le> 2 powi (k + 1) * of_int b"
      using bitlen_powi_bounds(1) [OF bpos] by (simp add: mult_left_mono)
    finally show ?thesis
      using bp by (simp add: x pos_divide_less_eq)
  qed
  have lo: "2 powi (k - 1) \<le> x"
  proof -
    have "2 powi (k - 1) * of_int b \<le> (2::rat) powi (k - 1) * 2 powi (bitlen b)"
      using bitlen_powi_bounds(2) [OF bpos] by (simp add: mult_left_mono)
    also have "\<dots> = 2 powi (bitlen a - 1)"
      by (simp add: k_def flip: power_int_add)
    also have "\<dots> \<le> of_int a"
      using bitlen_powi_bounds(1) [OF apos] .
    finally show ?thesis
      using bp by (simp add: x pos_le_divide_eq)
  qed
  show "2 powi (ilog2 x) \<le> x"
    using lo by (simp add: il)
  show "x < 2 powi (ilog2 x + 1)"
  proof (cases "2 powi k \<le> x")
    case True
    then show ?thesis using up by (simp add: il)
  next
    case False
    then show ?thesis by (simp add: il)
  qed
qed

lemma powi2_mono: "a \<le> b \<Longrightarrow> (2::rat) powi a \<le> 2 powi b"
  by (rule power_int_increasing) simp_all

lemma powi2_less_iff: "(2::rat) powi a < 2 powi b \<longleftrightarrow> a < b"
proof
  assume "(2::rat) powi a < 2 powi b"
  show "a < b"
  proof (rule ccontr)
    assume "\<not> a < b"
    then have "(2::rat) powi b \<le> 2 powi a"
      by (intro powi2_mono) simp
    with \<open>(2::rat) powi a < 2 powi b\<close> show False by simp
  qed
next
  assume "a < b"
  then show "(2::rat) powi a < 2 powi b"
    by (rule power_int_strict_increasing) simp
qed

lemma ilog2_eqI:
  assumes "2 powi k \<le> x" "x < 2 powi (k + 1)"
  shows "ilog2 x = k"
proof -
  have pos: "0 < x"
    using assms(1) by (meson less_le_trans zero_less_numeral zero_less_power_int)
  note b = ilog2_bounds [OF pos]
  have "2 powi k < (2::rat) powi (ilog2 x + 1)"
    using assms(1) b(2) by linarith
  then have 1: "k < ilog2 x + 1"
    by (simp only: powi2_less_iff)
  have "2 powi (ilog2 x) < (2::rat) powi (k + 1)"
    using assms(2) b(1) by linarith
  then have 2: "ilog2 x < k + 1"
    by (simp only: powi2_less_iff)
  from 1 2 show ?thesis by linarith
qed

lemma ilog2_mono:
  assumes "0 < x" "x \<le> y"
  shows "ilog2 x \<le> ilog2 y"
proof -
  have "2 powi (ilog2 x) \<le> x"
    using ilog2_bounds(1) [OF assms(1)] .
  also have "x \<le> y" by fact
  also have "y < 2 powi (ilog2 y + 1)"
    using ilog2_bounds(2) [of y] assms by simp
  finally have "ilog2 x < ilog2 y + 1"
    by (simp only: powi2_less_iff)
  then show ?thesis by simp
qed

subsection \<open>Monotonicity and fixed points of the rounding\<close>

lemma ulp_exp_minus [simp]: "ulp_exp (- q) = ulp_exp q"
  by (simp add: ulp_exp_def)

lemma round_double_minus: "round_double (- q) = - round_double q"
  by (simp add: round_double_def rne_minus)

lemma round_double_0 [simp]: "round_double 0 = 0"
  by (simp add: round_double_def)

lemma rne_nonneg: "0 \<le> x \<Longrightarrow> 0 \<le> rne x"
  using rne_mono [of "of_int 0" x] unfolding rne_of_int by simp

lemma round_double_nonneg: "0 \<le> q \<Longrightarrow> 0 \<le> round_double q"
  by (simp add: round_double_def rne_nonneg)

lemma ulp_exp_mono: "0 < x \<Longrightarrow> x \<le> y \<Longrightarrow> ulp_exp x \<le> ulp_exp y"
  using ilog2_mono [of x y] by (simp add: ulp_exp_def)

text \<open>Scaled by its own unit in the last place, a positive value lies below \<open>2^53\<close>.\<close>

lemma scaled_less:
  assumes "0 < x"
  shows "x / 2 powi ulp_exp x < 2 ^ 53"
proof -
  have "ilog2 x + 1 \<le> ulp_exp x + 53"
    using assms by (simp add: ulp_exp_def)
  then have "(2::rat) powi (ilog2 x + 1) \<le> 2 powi (ulp_exp x + 53)"
    by (rule powi2_mono)
  with ilog2_bounds(2) [OF assms] have "x < 2 powi (ulp_exp x + 53)"
    by linarith
  also have "\<dots> = 2 ^ 53 * 2 powi ulp_exp x"
    by (simp add: power_int_add)
  finally show ?thesis
    by (simp add: pos_divide_less_eq)
qed

lemma scaled_ge:
  assumes "0 < x" "- 1074 < ulp_exp x"
  shows "2 ^ 52 \<le> x / 2 powi ulp_exp x"
proof -
  have "ulp_exp x = ilog2 x - 52"
    using assms by (simp add: ulp_exp_def max_def split: if_splits)
  then have "(2::rat) powi (ulp_exp x + 52) = 2 powi ilog2 x"
    by simp
  with ilog2_bounds(1) [OF assms(1)] have "2 powi (ulp_exp x + 52) \<le> x"
    by simp
  moreover have "(2::rat) powi (ulp_exp x + 52) = 2 ^ 52 * 2 powi ulp_exp x"
    by (simp add: power_int_add)
  ultimately show ?thesis
    by (simp add: pos_le_divide_eq)
qed

lemma round_double_mono_pos:
  assumes "0 < x" "x \<le> y"
  shows "round_double x \<le> round_double y"
proof -
  have ypos: "0 < y" using assms by simp
  have le: "ulp_exp x \<le> ulp_exp y"
    using assms by (rule ulp_exp_mono)
  have rx: "round_double x = of_int (rne (x / 2 powi ulp_exp x)) * 2 powi ulp_exp x"
    using assms(1) by (simp add: round_double_def)
  have ry: "round_double y = of_int (rne (y / 2 powi ulp_exp y)) * 2 powi ulp_exp y"
    using ypos by (simp add: round_double_def)
  show ?thesis
  proof (cases "ulp_exp x = ulp_exp y")
    case True
    have "x / 2 powi ulp_exp y \<le> y / 2 powi ulp_exp y"
      using assms(2) by (simp add: divide_right_mono)
    then have "rne (x / 2 powi ulp_exp y) \<le> rne (y / 2 powi ulp_exp y)"
      by (rule rne_mono)
    then show ?thesis
      unfolding rx ry True by (simp add: mult_right_mono)
  next
    case False
    with le have lt: "ulp_exp x + 1 \<le> ulp_exp y" by simp
    have "- 1074 \<le> ulp_exp x" by (simp add: ulp_exp_def)
    with lt have big: "- 1074 < ulp_exp y" by simp
    have "rne (x / 2 powi ulp_exp x) \<le> rne (of_int (2 ^ 53))"
      using scaled_less [OF assms(1)] by (intro rne_mono) simp
    then have "rne (x / 2 powi ulp_exp x) \<le> 2 ^ 53"
      by (simp only: rne_of_int)
    then have "rat_of_int (rne (x / 2 powi ulp_exp x)) \<le> of_int (2 ^ 53)"
      by (simp only: of_int_le_iff)
    then have "round_double x \<le> 2 ^ 53 * 2 powi ulp_exp x"
      unfolding rx by (simp add: mult_right_mono)
    also have "\<dots> = 2 ^ 52 * 2 powi (ulp_exp x + 1)"
      by (simp add: power_int_add)
    also have "\<dots> \<le> 2 ^ 52 * 2 powi ulp_exp y"
      using powi2_mono [OF lt] by simp
    also have "\<dots> \<le> round_double y"
    proof -
      have "rne (of_int (2 ^ 52)) \<le> rne (y / 2 powi ulp_exp y)"
        using scaled_ge [OF ypos big] by (intro rne_mono) simp
      then have "2 ^ 52 \<le> rne (y / 2 powi ulp_exp y)"
        by (simp only: rne_of_int)
      then have "rat_of_int (2 ^ 52) \<le> of_int (rne (y / 2 powi ulp_exp y))"
        by (simp only: of_int_le_iff)
      then show ?thesis
        unfolding ry by (simp add: mult_right_mono)
    qed
    finally show ?thesis .
  qed
qed

lemma round_double_mono:
  assumes "x \<le> y"
  shows "round_double x \<le> round_double y"
proof -
  consider "0 < x" | "x \<le> 0" "0 \<le> y" | "y < 0"
    using assms by linarith
  then show ?thesis
  proof cases
    case 1
    then show ?thesis using assms by (rule round_double_mono_pos)
  next
    case 2
    have "round_double x \<le> 0"
      using round_double_nonneg [of "- x"] 2(1) by (simp add: round_double_minus)
    also have "0 \<le> round_double y"
      using 2(2) by (rule round_double_nonneg)
    finally show ?thesis .
  next
    case 3
    have "round_double (- y) \<le> round_double (- x)"
      using 3 assms by (intro round_double_mono_pos) simp_all
    then show ?thesis
      by (simp add: round_double_minus)
  qed
qed

text \<open>Values with a 53-bit significand and an exponent in range are fixed points.\<close>

lemma round_double_representable:
  assumes "\<bar>m\<bar> < 2 ^ 53" "- 1074 \<le> e"
  shows "round_double (of_int m * 2 powi e) = of_int m * 2 powi e"
proof (cases "m = 0")
  case True
  then show ?thesis by simp
next
  case False
  define x :: rat where "x = of_int m * 2 powi e"
  have xne: "x \<noteq> 0" using False by (simp add: x_def)
  have ax: "\<bar>x\<bar> = of_int \<bar>m\<bar> * 2 powi e"
    by (simp add: x_def abs_mult)
  have "rat_of_int \<bar>m\<bar> < of_int (2 ^ 53)"
    using assms(1) by (simp only: of_int_less_iff)
  then have "\<bar>x\<bar> < 2 ^ 53 * 2 powi e"
    unfolding ax by (simp add: mult_strict_right_mono)
  also have "\<dots> = 2 powi (e + 53)"
    by (simp add: power_int_add)
  finally have lt: "\<bar>x\<bar> < 2 powi (e + 53)" .
  have apos: "0 < \<bar>x\<bar>" using xne by simp
  have "2 powi ilog2 \<bar>x\<bar> < (2::rat) powi (e + 53)"
    using ilog2_bounds(1) [OF apos] lt by linarith
  then have "ilog2 \<bar>x\<bar> < e + 53"
    by (simp only: powi2_less_iff)
  then have ule: "ulp_exp x \<le> e"
    using assms(2) by (simp add: ulp_exp_def)
  define u where "u = ulp_exp x"
  define d where "d = nat (e - u)"
  have e: "e = u + int d"
    using ule by (simp add: d_def u_def)
  have "(2::rat) powi e = 2 powi u * 2 ^ d"
    by (subst e) (simp add: power_int_add)
  then have xu: "x = of_int (m * 2 ^ d) * 2 powi u"
    by (simp add: x_def)
  then have sc: "x / 2 powi u = of_int (m * 2 ^ d)"
    by (simp add: nonzero_divide_eq_eq)
  have "round_double x = of_int (rne (x / 2 powi u)) * 2 powi u"
    using xne by (simp add: round_double_def u_def)
  also have "\<dots> = x"
    unfolding sc rne_of_int using xu by simp
  finally show ?thesis by (simp add: x_def)
qed

lemma round_double_powi:
  assumes "- 1074 \<le> k"
  shows "round_double (2 powi k) = 2 powi k"
  using round_double_representable [of 1 k] assms by simp

lemma round_double_of_int:
  assumes "\<bar>m\<bar> < 2 ^ 53"
  shows "round_double (of_int m) = of_int m"
  using round_double_representable [of m 0] assms by simp

section \<open>The cutoff index\<close>

subsection \<open>Overflow\<close>

lemma round_double_abs_le:
  assumes "\<bar>q\<bar> \<le> 2 ^ k"
  shows "\<bar>round_double q\<bar> \<le> 2 ^ k"
proof -
  have fp: "round_double (2 ^ k) = 2 ^ k"
    using round_double_powi [of "int k"] by simp
  have "round_double q \<le> round_double (2 ^ k)"
    using assms by (intro round_double_mono) simp
  moreover have "round_double (- (2 ^ k)) \<le> round_double q"
    using assms by (intro round_double_mono) simp
  ultimately show ?thesis
    by (simp add: fp round_double_minus abs_le_iff)
qed

lemma ieee_result_Finite:
  assumes "\<bar>q\<bar> \<le> 2 ^ k" "k < 1024"
  shows "ieee_result q = Finite (round_double q)"
proof -
  have "(2::rat) ^ k < 2 ^ 1024"
    using assms(2) by (intro power_strict_increasing) simp_all
  with round_double_abs_le [OF assms(1)] have "\<bar>round_double q\<bar> < 2 ^ 1024"
    by linarith
  then show ?thesis
    by (simp add: ieee_result_def Let_def abs_less_iff)
qed

lemma ieee_result_FiniteD: "ieee_result q = Finite r \<Longrightarrow> r = round_double q"
  by (simp add: ieee_result_def Let_def split: if_splits)

subsection \<open>The cutoff\<close>

lemma cutoff_idx_InrD:
  assumes "cutoff_idx n p = Inr c"
  shows "c = max 1 (min (trunc_int (raw_cutoff n p)) (int n - 1))"
proof -
  from assms obtain x where x: "long_true_divide p 100 = Inr x"
    by (auto simp: cutoff_idx_def split: sum.splits)
  then obtain xr where xr: "x = Finite xr" "ieee_result (of_int p / 100) = Finite xr"
    by (cases "ieee_result (of_int p / 100)") (auto simp: long_true_divide_def)
  from assms x obtain y where y: "int_mul_float (int n) x = Inr y"
    by (auto simp: cutoff_idx_def split: sum.splits)
  then obtain nf where nf: "ieee_result (of_nat n) = Finite nf" "y = float_mul (Finite nf) x"
    by (cases "ieee_result (of_nat n)") (auto simp: int_mul_float_def long_as_double_def)
  from assms x y have c: "float_to_int y = Inr (trunc_int (raw_cutoff n p)) \<Longrightarrow> ?thesis"
    by (auto simp: cutoff_idx_def split: sum.splits)
  from assms x y obtain c' where c': "float_to_int y = Inr c'"
    by (auto simp: cutoff_idx_def split: sum.splits)
  then obtain yr where yr: "y = Finite yr"
    by (cases y) simp_all
  have "ieee_result (nf * xr) = Finite yr"
    using nf(2) xr(1) yr by simp
  then have "yr = round_double (nf * xr)"
    by (rule ieee_result_FiniteD)
  also have "nf = round_double (of_nat n)"
    using nf(1) by (rule ieee_result_FiniteD)
  also have "xr = round_double (of_int p / 100)"
    using xr(2) by (rule ieee_result_FiniteD)
  finally have "yr = raw_cutoff n p"
    by (simp add: raw_cutoff_def)
  then show ?thesis
    using c yr by simp
qed

lemma cutoff_idx_range:
  assumes "cutoff_idx n p = Inr c" "2 \<le> n"
  shows "1 \<le> c" "c \<le> int n - 1"
  using cutoff_idx_InrD [OF assms(1)] assms(2) by simp_all

lemma cutoff_idx_returns:
  assumes "\<bar>p\<bar> \<le> 2 ^ 500" "n \<le> 2 ^ 500"
  shows "\<exists>c. cutoff_idx n p = Inr c"
proof -
  have "\<bar>rat_of_int p / 100\<bar> \<le> \<bar>of_int p\<bar>"
    by (simp add: divide_le_eq)
  also have "\<dots> \<le> of_int (2 ^ 500)"
    using assms(1) by (simp only: of_int_le_iff flip: of_int_abs)
  finally have q: "\<bar>rat_of_int p / 100\<bar> \<le> 2 ^ 500"
    by simp
  have x: "ieee_result (of_int p / 100) = Finite (round_double (of_int p / 100))"
    using q by (rule ieee_result_Finite) simp
  have xb: "\<bar>round_double (of_int p / 100)\<bar> \<le> 2 ^ 500"
    using q by (rule round_double_abs_le)
  have "rat_of_nat n \<le> of_nat (2 ^ 500)"
    using assms(2) by (simp only: of_nat_le_iff)
  then have m: "\<bar>rat_of_nat n\<bar> \<le> 2 ^ 500"
    by simp
  have nf: "ieee_result (of_nat n) = Finite (round_double (of_nat n))"
    using m by (rule ieee_result_Finite) simp
  have nb: "\<bar>round_double (of_nat n)\<bar> \<le> 2 ^ 500"
    using m by (rule round_double_abs_le)
  have "\<bar>round_double (of_nat n) * round_double (of_int p / 100)\<bar> \<le> 2 ^ 500 * 2 ^ 500"
    unfolding abs_mult using nb xb by (intro mult_mono) simp_all
  then have "\<bar>round_double (of_nat n) * round_double (of_int p / 100)\<bar> \<le> 2 ^ 1000"
    by simp
  then have y: "ieee_result (round_double (of_nat n) * round_double (of_int p / 100)) =
      Finite (raw_cutoff n p)"
    unfolding raw_cutoff_def by (rule ieee_result_Finite) simp
  show ?thesis
    using x nf y
    by (simp add: cutoff_idx_def long_true_divide_def int_mul_float_def long_as_double_def)
qed

lemma trunc_int_mono:
  assumes "x \<le> y"
  shows "trunc_int x \<le> trunc_int y"
proof -
  consider "0 \<le> x" | "x < 0" "0 \<le> y" | "y < 0"
    by linarith
  then show ?thesis
  proof cases
    case 1
    then show ?thesis
      using assms by (simp add: trunc_int_def floor_mono)
  next
    case 2
    have "\<lceil>x\<rceil> \<le> 0" using 2(1) by (simp add: ceiling_le_zero)
    moreover have "0 \<le> \<lfloor>y\<rfloor>" using 2(2) by simp
    ultimately have "\<lceil>x\<rceil> \<le> \<lfloor>y\<rfloor>" by linarith
    then show ?thesis
      using 2 by (simp add: trunc_int_def)
  next
    case 3
    then show ?thesis
      using assms by (simp add: trunc_int_def ceiling_mono)
  qed
qed

lemma raw_cutoff_mono:
  assumes "p1 \<le> p2"
  shows "raw_cutoff n p1 \<le> raw_cutoff n p2"
proof -
  have "rat_of_int p1 / 100 \<le> of_int p2 / 100"
    using assms by (simp add: divide_right_mono)
  then have "round_double (of_int p1 / 100) \<le> round_double (of_int p2 / 100)"
    by (rule round_double_mono)
  moreover have "0 \<le> round_double (of_nat n)"
    by (rule round_double_nonneg) simp
  ultimately have "round_double (of_nat n) * round_double (of_int p1 / 100)
      \<le> round_double (of_nat n) * round_double (of_int p2 / 100)"
    by (rule mult_left_mono)
  then show ?thesis
    unfolding raw_cutoff_def by (rule round_double_mono)
qed

lemma cutoff_idx_mono:
  assumes "cutoff_idx n p1 = Inr c1" "cutoff_idx n p2 = Inr c2" "p1 \<le> p2"
  shows "c1 \<le> c2"
proof -
  have "trunc_int (raw_cutoff n p1) \<le> trunc_int (raw_cutoff n p2)"
    using assms(3) by (intro trunc_int_mono raw_cutoff_mono)
  then show ?thesis
    unfolding cutoff_idx_InrD [OF assms(1)] cutoff_idx_InrD [OF assms(2)] by simp
qed

lemma cutoff_idx_eq:
  assumes "\<bar>p\<bar> \<le> 2 ^ 500" "n \<le> 2 ^ 500"
  shows "cutoff_idx n p = Inr (max 1 (min (trunc_int (raw_cutoff n p)) (int n - 1)))"
proof -
  obtain c where c: "cutoff_idx n p = Inr c"
    using cutoff_idx_returns [OF assms] ..
  show ?thesis
    unfolding c using cutoff_idx_InrD [OF c] by simp
qed

text \<open>Above \<open>2^1023\<close> the quotient or the product overflows.\<close>

lemma cutoff_idx_overflow:
  assumes "2 ^ 1023 \<le> rat_of_int p / 100" "2 \<le> n" "n < 2 ^ 53"
  shows "cutoff_idx n p = Inl OverflowError"
proof (cases "ieee_result (of_int p / 100)")
  case (Finite x)
  have x: "x = round_double (of_int p / 100)"
    using Finite by (rule ieee_result_FiniteD)
  have fp: "round_double (2 ^ k) = 2 ^ k" for k
    using round_double_powi [of "int k"] by simp
  have "round_double (2 ^ 1023) \<le> x"
    unfolding x using assms(1) by (rule round_double_mono)
  then have xb: "2 ^ 1023 \<le> x"
    by (simp only: fp)
  have "\<bar>int n\<bar> < 2 ^ 53"
    using assms(3) by simp
  then have "round_double (of_int (int n)) = of_int (int n)"
    by (rule round_double_of_int)
  then have nf: "round_double (of_nat n) = of_nat n"
    by simp
  have "\<bar>rat_of_nat n\<bar> \<le> 2 ^ 53"
    using assms(3) by simp
  then have n: "ieee_result (of_nat n) = Finite (of_nat n)"
    using ieee_result_Finite [of "of_nat n" 53] nf by simp
  have "(2::rat) * 2 ^ 1023 \<le> of_nat n * x"
    using assms(2) xb by (intro mult_mono) simp_all
  then have "(2::rat) ^ 1024 \<le> of_nat n * x"
    by simp
  then have "round_double (2 ^ 1024) \<le> round_double (of_nat n * x)"
    by (rule round_double_mono)
  then have "2 ^ 1024 \<le> round_double (of_nat n * x)"
    by (simp only: fp)
  then have "ieee_result (of_nat n * x) = PosInf"
    unfolding ieee_result_def Let_def by (simp only: if_True)
  then show ?thesis
    using Finite n
    by (simp add: cutoff_idx_def long_true_divide_def int_mul_float_def long_as_double_def)
qed (simp_all add: cutoff_idx_def long_true_divide_def)

section \<open>The cutoff and the exact floor\<close>

lemma round_double_rel_error_pos:
  assumes "2 powi (- 1022) \<le> q"
  shows "\<bar>round_double q - q\<bar> \<le> q * 2 powi (- 53)"
proof -
  have qpos: "0 < q"
    using assms by (meson less_le_trans zero_less_numeral zero_less_power_int)
  have "(2::rat) powi (- 1022) < 2 powi (ilog2 q + 1)"
    using assms ilog2_bounds(2) [OF qpos] by linarith
  then have "- 1022 < ilog2 q + 1"
    by (simp only: powi2_less_iff)
  then have u: "ulp_exp q = ilog2 q - 52"
    using qpos by (simp add: ulp_exp_def)
  define U :: rat where "U = 2 powi ulp_exp q"
  have Upos: "0 < U" by (simp add: U_def)
  have "2 powi (ulp_exp q + 52) \<le> q"
    using ilog2_bounds(1) [OF qpos] by (simp add: u)
  then have big: "2 ^ 52 * U \<le> q"
    by (simp add: U_def power_int_add)
  have rd: "round_double q = of_int (rne (q / U)) * U"
    using qpos by (simp add: round_double_def U_def)
  have "round_double q - q = (of_int (rne (q / U)) - q / U) * U"
    using Upos by (simp add: rd algebra_simps)
  then have "\<bar>round_double q - q\<bar> = \<bar>of_int (rne (q / U)) - q / U\<bar> * U"
    using Upos by (simp add: abs_mult)
  also have "\<dots> \<le> (1 / 2) * U"
    using rne_error [of "q / U"] Upos by (intro mult_right_mono) simp_all
  also have "\<dots> = (2 ^ 52 * U) * 2 powi (- 53)"
    by (simp add: power_int_minus)
  also have "\<dots> \<le> q * 2 powi (- 53)"
    using big by (intro mult_right_mono) simp_all
  finally show ?thesis .
qed

lemma powi_tiny: "(2::rat) powi (- 1022) \<le> 1 / 256"
proof -
  have "(2::rat) powi (- 1022) \<le> 2 powi (- 8)"
    by (rule powi2_mono) simp
  then show ?thesis
    by (simp add: power_int_minus)
qed

lemma raw_cutoff_error:
  assumes "1 \<le> p" "1 \<le> n" "n < 2 ^ 53" "int n * p < 2 ^ 50"
  shows "\<bar>raw_cutoff n p - of_nat n * of_int p / 100\<bar> < 1 / 100"
proof -
  define eps :: rat where "eps = 2 powi (- 53)"
  define q :: rat where "q = of_int p / 100"
  define N :: rat where "N = of_nat n"
  define x where "x = round_double q"
  define y where "y = round_double (N * x)"
  have eps: "0 < eps" "eps \<le> 1 / 2" "eps = 1 / 2 ^ 53"
    by (simp_all add: eps_def power_int_minus)
  have q100: "1 / 100 \<le> q"
    using assms(1) by (simp add: q_def)
  then have qpos: "0 < q" by simp
  have N1: "1 \<le> N"
    using assms(2) by (simp add: N_def)
  have "2 powi (- 1022) \<le> q"
    using powi_tiny q100 by linarith
  then have ex: "\<bar>x - q\<bar> \<le> q * eps"
    unfolding x_def eps_def by (rule round_double_rel_error_pos)
  have "q * eps \<le> q * (1 / 2)"
    using eps(2) qpos by (intro mult_left_mono) simp_all
  with ex have xlo: "q / 2 \<le> x"
    by (simp add: abs_le_iff)
  have xhi: "x \<le> q * (1 + eps)"
    using ex by (simp add: abs_le_iff algebra_simps)
  have xpos: "0 < x"
    using xlo qpos by linarith
  have "1 * (q / 2) \<le> N * x"
    using N1 xlo qpos by (intro mult_mono) simp_all
  then have "2 powi (- 1022) \<le> N * x"
    using powi_tiny q100 by linarith
  then have ey: "\<bar>y - N * x\<bar> \<le> N * x * eps"
    unfolding y_def eps_def by (rule round_double_rel_error_pos)
  have Npos: "0 < N" using N1 by simp
  have "N * x * eps \<le> N * (q * (1 + eps)) * eps"
    using xhi Npos eps(1) by (intro mult_right_mono mult_left_mono) simp_all
  with ey have ey': "\<bar>y - N * x\<bar> \<le> N * q * ((1 + eps) * eps)"
    by (simp add: algebra_simps)
  have "\<bar>N * x - N * q\<bar> = N * \<bar>x - q\<bar>"
    using Npos by (simp add: abs_mult flip: right_diff_distrib)
  also have "\<dots> \<le> N * (q * eps)"
    using ex Npos by (intro mult_left_mono) simp_all
  finally have ex': "\<bar>N * x - N * q\<bar> \<le> N * q * eps"
    by (simp add: algebra_simps)
  have "\<bar>y - N * q\<bar> \<le> \<bar>y - N * x\<bar> + \<bar>N * x - N * q\<bar>"
    by simp
  also have "\<dots> \<le> N * q * ((1 + eps) * eps) + N * q * eps"
    using ey' ex' by (rule add_mono)
  also have "\<dots> = N * q * ((2 + eps) * eps)"
    by (simp add: algebra_simps)
  also have "\<dots> \<le> N * q * (3 * eps)"
    using eps Npos qpos by (intro mult_left_mono mult_right_mono) simp_all
  finally have tot: "\<bar>y - N * q\<bar> \<le> N * q * (3 * eps)" .
  have "rat_of_int (int n * p) < of_int (2 ^ 50)"
    using assms(4) by (simp only: of_int_less_iff)
  then have "N * of_int p < 2 ^ 50"
    by (simp add: N_def)
  then have "N * q < 2 ^ 50 / 100"
    by (simp add: q_def)
  then have "N * q * (3 * eps) < 2 ^ 50 / 100 * (3 * eps)"
    using eps(1) by (intro mult_strict_right_mono) simp_all
  also have "\<dots> < 1 / 100"
    by (simp add: eps(3))
  finally have "\<bar>y - N * q\<bar> < 1 / 100"
    using tot by linarith
  moreover have "round_double (of_nat n) = N"
    using round_double_of_int [of "int n"] assms(3) by (simp add: N_def)
  ultimately show ?thesis
    by (simp add: raw_cutoff_def y_def x_def q_def N_def)
qed

lemma raw_cutoff_nonneg: "0 \<le> p \<Longrightarrow> 0 \<le> raw_cutoff n p"
  unfolding raw_cutoff_def
  by (intro round_double_nonneg mult_nonneg_nonneg) simp_all

lemma raw_cutoff_nonpos:
  assumes "p \<le> 0"
  shows "raw_cutoff n p \<le> 0"
proof -
  have "round_double (of_int p / 100) \<le> round_double 0"
    using assms by (intro round_double_mono) simp
  then have "round_double (of_int p / 100) \<le> 0"
    by simp
  moreover have "0 \<le> round_double (of_nat n)"
    by (rule round_double_nonneg) simp
  ultimately have "round_double (of_nat n) * round_double (of_int p / 100) \<le> 0"
    by (simp add: mult_nonneg_nonpos)
  then have "raw_cutoff n p \<le> round_double 0"
    unfolding raw_cutoff_def by (rule round_double_mono)
  then show ?thesis by simp
qed

lemma raw_cutoff_exact:
  assumes "100 dvd p" "1 \<le> n" "int n * \<bar>p\<bar> < 2 ^ 53"
  shows "raw_cutoff n p = of_nat n * of_int p / 100"
proof -
  obtain m where m: "p = 100 * m"
    using assms(1) by (rule dvdE)
  have "1 * \<bar>m\<bar> \<le> int n * \<bar>p\<bar>"
    using assms(2) by (intro mult_mono) (simp_all add: m abs_mult)
  then have mb: "\<bar>m\<bar> < 2 ^ 53"
    using assms(3) by linarith
  have "int n * \<bar>m\<bar> \<le> int n * \<bar>p\<bar>"
    by (intro mult_left_mono) (simp_all add: m abs_mult)
  then have nm: "\<bar>int n * m\<bar> < 2 ^ 53"
    using assms(3) by (simp add: abs_mult)
  have q: "rat_of_int p / 100 = of_int m"
    by (simp add: m)
  have x: "round_double (of_int m) = of_int m"
    using mb by (rule round_double_of_int)
  have y: "round_double (of_int (int n * m)) = of_int (int n * m)"
    using nm by (rule round_double_of_int)
  show ?thesis
  proof (cases "m = 0")
    case True
    then show ?thesis by (simp add: raw_cutoff_def m)
  next
    case False
    then have "1 \<le> \<bar>m\<bar>" by simp
    then have "int n * 1 \<le> int n * \<bar>m\<bar>"
      by (intro mult_left_mono) simp_all
    then have "\<bar>int n\<bar> < 2 ^ 53"
      using nm by (simp add: abs_mult)
    then have "round_double (of_int (int n)) = of_int (int n)"
      by (rule round_double_of_int)
    then have n: "round_double (of_nat n) = of_nat n"
      by simp
    show ?thesis
      unfolding raw_cutoff_def q x n using y by (simp add: m)
  qed
qed

lemma trunc_int_of_int: "trunc_int (of_int z) = z"
  by (simp add: trunc_int_def)

lemma clamp_close:
  fixes t k m :: int
  assumes "k - 1 \<le> t" "t \<le> k"
  shows "max 1 (min k m) - 1 \<le> max 1 (min t m)" "max 1 (min t m) \<le> max 1 (min k m)"
  using assms by linarith+

lemma cutoff_near_floor:
  assumes "1 \<le> n" "n < 2 ^ 53" "int n * \<bar>p\<bar> < 2 ^ 50"
  defines "k \<equiv> (int n * p) div 100"
  defines "t \<equiv> trunc_int (raw_cutoff n p)"
  shows "k - 1 \<le> t \<or> (t \<le> 0 \<and> k \<le> 0)" "t \<le> k \<or> (t \<le> 0 \<and> k \<le> 0)"
    "\<not> 100 dvd int n * p \<Longrightarrow> t = k \<or> (t \<le> 0 \<and> k \<le> 0)" "100 dvd p \<Longrightarrow> t = k"
proof -
  have exact: "t = k" if d: "100 dvd p"
  proof -
    have "int n * \<bar>p\<bar> < 2 ^ 53"
      using assms(3) by simp
    with d assms(1) have "raw_cutoff n p = of_nat n * of_int p / 100"
      by (rule raw_cutoff_exact)
    also have "\<dots> = of_int (int n * p) / of_int 100"
      by simp
    finally have r: "raw_cutoff n p = of_int (int n * p) / of_int 100" .
    obtain m where m: "p = 100 * m"
      using d by (rule dvdE)
    have "raw_cutoff n p = of_int (int n * m)"
      unfolding r by (simp add: m)
    then have "t = int n * m"
      unfolding t_def by (simp only: trunc_int_of_int)
    moreover have "k = int n * m"
      by (simp add: k_def m)
    ultimately show ?thesis by simp
  qed
  show "100 dvd p \<Longrightarrow> t = k" by (rule exact)
  have main: "(k - 1 \<le> t \<or> (t \<le> 0 \<and> k \<le> 0)) \<and> (t \<le> k \<or> (t \<le> 0 \<and> k \<le> 0)) \<and>
      (\<not> 100 dvd int n * p \<longrightarrow> t = k \<or> (t \<le> 0 \<and> k \<le> 0))"
  proof (cases "p \<le> 0")
    case True
    have "raw_cutoff n p \<le> 0"
      using True by (rule raw_cutoff_nonpos)
    then have "t \<le> 0"
      by (auto simp: t_def trunc_int_def ceiling_le_zero)
    moreover have "int n * p \<le> 0"
      using True by (simp add: mult_nonneg_nonpos)
    then have "k \<le> 0"
      unfolding k_def by (simp add: div_le_dividend pos_imp_zdiv_nonneg_iff not_le div_int_pos_iff)
    ultimately show ?thesis by simp
  next
    case False
    then have p1: "1 \<le> p" by simp
    define y where "y = raw_cutoff n p"
    define r where "r = (int n * p) mod 100"
    have r: "0 \<le> r" "r \<le> 99"
      by (simp_all add: r_def)
    have np: "int n * p = 100 * k + r"
      by (simp add: k_def r_def)
    have "rat_of_nat n * of_int p = of_int (int n * p)"
      by simp
    also have "\<dots> = 100 * of_int k + of_int r"
      unfolding np by simp
    finally have E: "rat_of_nat n * of_int p / 100 = of_int k + of_int r / 100"
      by simp
    have "int n * p < 2 ^ 50"
      using assms(3) p1 by simp
    with p1 assms(1,2) have "\<bar>y - rat_of_nat n * of_int p / 100\<bar> < 1 / 100"
      unfolding y_def by (rule raw_cutoff_error)
    then have err: "\<bar>y - (of_int k + of_int r / 100)\<bar> < 1 / 100"
      by (simp only: E)
    have ynn: "0 \<le> y"
      unfolding y_def using p1 by (intro raw_cutoff_nonneg) simp
    then have t: "t = \<lfloor>y\<rfloor>"
      by (simp add: t_def trunc_int_def y_def)
    have r1: "rat_of_int r \<le> 99" "0 \<le> rat_of_int r"
      using r by simp_all
    have "y < of_int k + 1"
      using err r1 by linarith
    then have "y < of_int (k + 1)"
      by simp
    then have "\<lfloor>y\<rfloor> < k + 1"
      by (simp only: floor_less_iff)
    then have up: "t \<le> k"
      unfolding t by simp
    have "of_int k - 1 < y"
      using err r1 by linarith
    then have "of_int (k - 1) \<le> y"
      by simp
    then have lo: "k - 1 \<le> t"
      unfolding t by (simp only: le_floor_iff)
    have "t = k" if "\<not> 100 dvd int n * p"
    proof -
      have "r \<noteq> 0"
        using that by (simp add: r_def dvd_eq_mod_eq_0)
      with r have "1 \<le> rat_of_int r"
        by simp
      then have "of_int k \<le> y"
        using err by linarith
      then have "k \<le> t"
        unfolding t by (simp only: le_floor_iff)
      with up show ?thesis by simp
    qed
    with lo up show ?thesis by simp
  qed
  from main show "k - 1 \<le> t \<or> (t \<le> 0 \<and> k \<le> 0)" "t \<le> k \<or> (t \<le> 0 \<and> k \<le> 0)"
    "\<not> 100 dvd int n * p \<Longrightarrow> t = k \<or> (t \<le> 0 \<and> k \<le> 0)"
    by simp_all
qed

lemma spec_cutoff_div: "spec_cutoff n p = max 1 (min ((int n * p) div 100) (int n - 1))"
proof -
  have "rat_of_nat n * rat_of_int p / 100 = of_int (int n * p) / of_int 100"
    by simp
  then have "\<lfloor>rat_of_nat n * rat_of_int p / 100\<rfloor> = (int n * p) div 100"
    by (simp only: floor_divide_of_int_eq)
  then show ?thesis
    by (simp add: spec_cutoff_def)
qed

lemma cutoff_idx_near_spec:
  assumes "2 \<le> n" "n < 2 ^ 53" "int n * \<bar>p\<bar> < 2 ^ 50"
  shows "\<exists>c. cutoff_idx n p = Inr c \<and> 1 \<le> c \<and> c \<le> int n - 1 \<and>
    spec_cutoff n p - 1 \<le> c \<and> c \<le> spec_cutoff n p \<and>
    (\<not> 100 dvd int n * p \<longrightarrow> c = spec_cutoff n p) \<and> (100 dvd p \<longrightarrow> c = spec_cutoff n p)"
proof -
  define k where "k = (int n * p) div 100"
  define t where "t = trunc_int (raw_cutoff n p)"
  define c where "c = max 1 (min t (int n - 1))"
  have n1: "1 \<le> n" using assms(1) by simp
  have "1 * \<bar>p\<bar> \<le> int n * \<bar>p\<bar>"
    using n1 by (intro mult_right_mono) simp_all
  then have "\<bar>p\<bar> < 2 ^ 50"
    using assms(3) by simp
  moreover have "(2::int) ^ 50 \<le> 2 ^ 500"
    by (rule power_increasing) simp_all
  ultimately have pb: "\<bar>p\<bar> \<le> 2 ^ 500"
    by linarith
  have "(2::nat) ^ 53 \<le> 2 ^ 500"
    by (rule power_increasing) simp_all
  with assms(2) have nb: "n \<le> 2 ^ 500"
    by linarith
  have c: "cutoff_idx n p = Inr c"
    unfolding c_def t_def using pb nb by (rule cutoff_idx_eq)
  note near = cutoff_near_floor [OF n1 assms(2,3), folded k_def t_def]
  have s: "spec_cutoff n p = max 1 (min k (int n - 1))"
    by (simp add: spec_cutoff_div k_def)
  have "1 \<le> c" "c \<le> int n - 1"
    using assms(1) by (simp_all add: c_def)
  moreover have "spec_cutoff n p - 1 \<le> c" "c \<le> spec_cutoff n p"
    unfolding s c_def using near(1,2) by linarith+
  moreover have "c = spec_cutoff n p" if "\<not> 100 dvd int n * p"
    unfolding s c_def using near(3) [OF that] by linarith
  moreover have "c = spec_cutoff n p" if "100 dvd p"
    unfolding s c_def using near(4) [OF that] by simp
  ultimately show ?thesis
    using c by blast
qed

section \<open>Sorting the frame\<close>

lemma sorted_wrt_all_None: "set ks \<subseteq> {None} \<Longrightarrow> sorted_wrt rank_order ks"
  by (induction ks) auto

lemma sorted_wrt_rank_Some: "sorted_wrt rank_order (map Some vs) = sorted (rev vs)"
proof -
  have "sorted_wrt rank_order (map Some vs) = sorted_wrt (\<lambda>x y. y \<le> x) vs"
    by (simp add: sorted_wrt_map)
  also have "\<dots> = sorted (rev vs)"
    by (simp add: sorted_wrt_rev)
  finally show ?thesis .
qed

lemma nargsort_parts:
  fixes items :: "cell list"
  defines "A \<equiv> rev (filter (\<lambda>i. items ! i \<noteq> None) [0..<length items])"
  defines "B \<equiv> filter (\<lambda>i. items ! i = None) [0..<length items]"
  shows "nargsort argsort items =
    rev (map (\<lambda>j. A ! j) (argsort (map (\<lambda>i. the (items ! i)) A))) @ B"
  by (simp add: nargsort_def Let_def A_def B_def)

lemma nargsort_perm:
  assumes "argsort_sorts argsort"
  shows "distinct (nargsort argsort items)"
    and "set (nargsort argsort items) = {..<length items}"
proof -
  define A where "A = rev (filter (\<lambda>i. items ! i \<noteq> None) [0..<length items])"
  define B where "B = filter (\<lambda>i. items ! i = None) [0..<length items]"
  define P where "P = argsort (map (\<lambda>i. the (items ! i)) A)"
  have n: "nargsort argsort items = rev (map (\<lambda>j. A ! j) P) @ B"
    by (simp add: nargsort_def Let_def A_def B_def P_def)
  have P: "distinct P" "set P = {..<length A}"
    using assms by (simp_all add: argsort_sorts_def P_def)
  have dA: "distinct A" by (simp add: A_def)
  have inj: "inj_on (\<lambda>j. A ! j) (set P)"
    using dA P(2) by (auto simp: inj_on_def nth_eq_iff_index_eq)
  have sA: "set (map (\<lambda>j. A ! j) P) = set A"
  proof -
    have "set (map (\<lambda>j. A ! j) P) = (\<lambda>j. A ! j) ` {..<length A}"
      using P(2) by simp
    also have "\<dots> = set A"
      by (auto simp: set_conv_nth)
    finally show ?thesis .
  qed
  have dM: "distinct (map (\<lambda>j. A ! j) P)"
    using P(1) inj by (simp add: distinct_map)
  have disj: "set A \<inter> set B = {}"
    by (auto simp: A_def B_def)
  show "distinct (nargsort argsort items)"
    unfolding n using dM sA disj by (simp add: B_def)
  have "set A \<union> set B = {..<length items}"
    by (auto simp: A_def B_def)
  then show "set (nargsort argsort items) = {..<length items}"
    unfolding n using sA by simp
qed

lemma length_nargsort:
  assumes "argsort_sorts argsort"
  shows "length (nargsort argsort items) = length items"
proof -
  have "length (nargsort argsort items) = card (set (nargsort argsort items))"
    using nargsort_perm(1) [OF assms] by (simp add: distinct_card)
  then show ?thesis
    by (simp add: nargsort_perm(2) [OF assms])
qed

lemma nargsort_order:
  assumes "argsort_sorts argsort"
  shows "sorted_wrt rank_order (map (\<lambda>i. items ! i) (nargsort argsort items))"
proof -
  define A where "A = rev (filter (\<lambda>i. items ! i \<noteq> None) [0..<length items])"
  define B where "B = filter (\<lambda>i. items ! i = None) [0..<length items]"
  define V where "V = map (\<lambda>i. the (items ! i)) A"
  define P where "P = argsort V"
  have n: "nargsort argsort items = rev (map (\<lambda>j. A ! j) P) @ B"
    by (simp add: nargsort_def Let_def A_def B_def P_def V_def)
  have P: "set P = {..<length A}" "sorted (map (\<lambda>j. V ! j) P)"
    using assms by (simp_all add: argsort_sorts_def P_def V_def)
  have val: "items ! (A ! j) = Some (V ! j)" if "j < length A" for j
  proof -
    have "A ! j \<in> set A" using that by simp
    then have "items ! (A ! j) \<noteq> None" by (simp add: A_def)
    then show ?thesis using that by (auto simp: V_def)
  qed
  have "map (\<lambda>i. items ! i) (map (\<lambda>j. A ! j) P) = map Some (map (\<lambda>j. V ! j) P)"
    using P(1) val by auto
  then have first: "map (\<lambda>i. items ! i) (rev (map (\<lambda>j. A ! j) P))
      = map Some (rev (map (\<lambda>j. V ! j) P))"
    by (simp add: rev_map)
  have second: "set (map (\<lambda>i. items ! i) B) \<subseteq> {None}"
    by (auto simp: B_def)
  have "sorted_wrt rank_order (map Some (rev (map (\<lambda>j. V ! j) P)))"
    unfolding sorted_wrt_rank_Some using P(2) by simp
  moreover have "sorted_wrt rank_order (map (\<lambda>i. items ! i) B)"
    using second by (rule sorted_wrt_all_None)
  moreover have "\<forall>x\<in>set (map Some (rev (map (\<lambda>j. V ! j) P))).
      \<forall>y\<in>set (map (\<lambda>i. items ! i) B). rank_order x y"
    using second by auto
  ultimately show ?thesis
    unfolding n map_append first by (simp only: sorted_wrt_append simp_thms)
qed

lemma sort_values_Inr:
  assumes "by \<in> set (columns df)"
  shows "sort_values argsort df by =
    Inr (df\<lparr>rows := map (\<lambda>i. rows df ! i) (nargsort argsort (map (\<lambda>r. r by) (rows df)))\<rparr>)"
  using assms by (simp add: sort_values_def get_column_def)

lemma sort_values_KeyError:
  assumes "by \<notin> set (columns df)"
  shows "sort_values argsort df by = Inl (KeyError by)"
  using assms by (simp add: sort_values_def get_column_def)

lemma sort_values_props:
  assumes "argsort_sorts argsort" "sort_values argsort df by = Inr ds"
  shows "length (rows ds) = length (rows df)"
    and "mset (rows ds) = mset (rows df)"
    and "sorted_wrt rank_order (map (\<lambda>r. r by) (rows ds))"
    and "columns ds = columns df"
proof -
  define items where "items = map (\<lambda>r. r by) (rows df)"
  define ix where "ix = nargsort argsort items"
  have ds: "ds = df\<lparr>rows := map (\<lambda>i. rows df ! i) ix\<rparr>"
    using assms(2) by (auto simp: sort_values_def get_column_def ix_def items_def split: if_splits)
  have len: "length ix = length (rows df)"
    using length_nargsort [OF assms(1)] by (simp add: ix_def items_def)
  have ixd: "distinct ix" and ixs: "set ix = {..<length (rows df)}"
    using nargsort_perm [OF assms(1), of items] by (simp_all add: ix_def items_def)
  show "length (rows ds) = length (rows df)"
    by (simp add: ds len)
  show "columns ds = columns df"
    by (simp add: ds)
  have "set ix = set [0..<length (rows df)]"
    using ixs by (simp add: atLeast0LessThan)
  then have "mset ix = mset [0..<length (rows df)]"
    using ixd set_eq_iff_mset_eq_distinct [of ix "[0..<length (rows df)]"] distinct_upt
    by blast
  then have "mset (map (\<lambda>i. rows df ! i) ix) = mset (map (\<lambda>i. rows df ! i) [0..<length (rows df)])"
    by (metis mset_map)
  then show "mset (rows ds) = mset (rows df)"
    by (simp add: ds map_nth)
  have "map (\<lambda>r. r by) (map (\<lambda>i. rows df ! i) ix) = map (\<lambda>i. items ! i) ix"
    using ixs by (auto simp: items_def)
  moreover have "sorted_wrt rank_order (map (\<lambda>i. items ! i) ix)"
    unfolding ix_def using assms(1) by (rule nargsort_order)
  ultimately have "sorted_wrt rank_order (map (\<lambda>r. r by) (map (\<lambda>i. rows df ! i) ix))"
    by (simp only:)
  then show "sorted_wrt rank_order (map (\<lambda>r. r by) (rows ds))"
    by (simp add: ds)
qed

section \<open>The two groups\<close>

lemma stable_argsort_sorts: "argsort_sorts stable_argsort"
  unfolding argsort_sorts_def stable_argsort_def
proof (intro allI conjI)
  fix xs :: "real list"
  show "distinct (sort_key (\<lambda>i. xs ! i) [0..<length xs])"
    by simp
  show "set (sort_key (\<lambda>i. xs ! i) [0..<length xs]) = {..<length xs}"
    by (simp add: atLeast0LessThan)
  show "sorted (map (\<lambda>i. xs ! i) (sort_key (\<lambda>i. xs ! i) [0..<length xs]))"
    by (rule sorted_sort_key)
qed

lemma slice_bound_pos: "1 \<le> c \<Longrightarrow> slice_bound n c = nat c"
  by (simp add: slice_bound_def)

lemma split_groups_InrD:
  assumes "split_groups argsort data p = Inr (upper, lower)"
  obtains ds c where "sort_values argsort data ''2021_GDP'' = Inr ds"
    and "cutoff_idx (length (rows ds)) p = Inr c"
    and "1 \<le> c"
    and "upper = ds\<lparr>rows := take (nat c) (rows ds)\<rparr>"
    and "lower = ds\<lparr>rows := drop (nat c) (rows ds)\<rparr>"
proof -
  from assms obtain ds where ds: "sort_values argsort data ''2021_GDP'' = Inr ds"
    by (auto simp: split_groups_def split: sum.splits)
  from assms ds obtain c where c: "cutoff_idx (length (rows ds)) p = Inr c"
    by (auto simp: split_groups_def split: sum.splits)
  have c1: "1 \<le> c"
    using cutoff_idx_InrD [OF c] by simp
  have "upper = iloc_upto c ds" "lower = iloc_from c ds"
    using assms ds c by (simp_all add: split_groups_def)
  then have "upper = ds\<lparr>rows := take (nat c) (rows ds)\<rparr>"
    "lower = ds\<lparr>rows := drop (nat c) (rows ds)\<rparr>"
    using c1 by (simp_all add: iloc_upto_def iloc_from_def slice_bound_pos)
  with ds c c1 show ?thesis by (rule that)
qed

lemma split_groups_returns:
  assumes "argsort_sorts argsort" "''2021_GDP'' \<in> set (columns data)"
    and "length (rows data) \<le> 2 ^ 500" "\<bar>p\<bar> \<le> 2 ^ 500"
  shows "\<exists>upper lower. split_groups argsort data p = Inr (upper, lower)"
proof -
  obtain ds where ds: "sort_values argsort data ''2021_GDP'' = Inr ds"
    using sort_values_Inr [OF assms(2)] by blast
  have "length (rows ds) = length (rows data)"
    using assms(1) ds by (rule sort_values_props)
  then have "length (rows ds) \<le> 2 ^ 500"
    using assms(3) by (simp only:)
  with assms(4) have "\<exists>c. cutoff_idx (length (rows ds)) p = Inr c"
    by (rule cutoff_idx_returns)
  then obtain c where "cutoff_idx (length (rows ds)) p = Inr c" ..
  with ds show ?thesis
    by (simp add: split_groups_def)
qed

lemma length_rows_sorted:
  assumes "argsort_sorts argsort" "by \<in> set (columns df)"
  shows "\<exists>ds. sort_values argsort df by = Inr ds \<and> length (rows ds) = length (rows df)"
  using sort_values_Inr [OF assms(2), of argsort] sort_values_props(1) [OF assms(1)]
  by blast

lemma rank_order_iff: "rank_order a b \<longleftrightarrow> b = None \<or> cell_ge a b"
  by (cases a; cases b) simp_all

lemma cutoff_idx_error:
  assumes "cutoff_idx n p = Inl e"
  shows "e = OverflowError"
proof (cases "ieee_result (of_int p / 100)")
  case (Finite x)
  show ?thesis
  proof (cases "ieee_result (of_nat n)")
    case nf: (Finite m)
    show ?thesis
    proof (cases "ieee_result (m * x)")
      case (Finite y)
      then show ?thesis
        using assms \<open>ieee_result (of_int p / 100) = Finite x\<close> nf
        by (simp add: cutoff_idx_def long_true_divide_def int_mul_float_def long_as_double_def)
    next
      case NotANumber
      then show ?thesis
        by (simp add: ieee_result_def Let_def split: if_splits)
    qed (use assms Finite nf in \<open>simp_all add: cutoff_idx_def long_true_divide_def
        int_mul_float_def long_as_double_def\<close>)
  qed (use assms Finite in \<open>simp_all add: cutoff_idx_def long_true_divide_def
        int_mul_float_def long_as_double_def\<close>)
qed (use assms in \<open>simp_all add: cutoff_idx_def long_true_divide_def\<close>)

lemma split_groups_columns:
  assumes "split_groups argsort data p = Inr (upper, lower)"
  shows "columns upper = columns data" "columns lower = columns data"
proof -
  from assms obtain ds c where ds: "sort_values argsort data ''2021_GDP'' = Inr ds"
    and u: "upper = ds\<lparr>rows := take (nat c) (rows ds)\<rparr>"
    and l: "lower = ds\<lparr>rows := drop (nat c) (rows ds)\<rparr>"
    by (rule split_groups_InrD)
  have "columns ds = columns data"
    using ds by (auto simp: sort_values_def get_column_def split: if_splits)
  then show "columns upper = columns data" "columns lower = columns data"
    by (simp_all add: u l)
qed

lemma split_groups_error:
  assumes "split_groups argsort data p = Inl e"
  shows "e = OverflowError \<or> (e = KeyError ''2021_GDP'' \<and> ''2021_GDP'' \<notin> set (columns data))"
proof (cases "''2021_GDP'' \<in> set (columns data)")
  case True
  then obtain ds where ds: "sort_values argsort data ''2021_GDP'' = Inr ds"
    using sort_values_Inr by blast
  with assms have "cutoff_idx (length (rows ds)) p = Inl e"
    by (simp add: split_groups_def split: sum.splits)
  then show ?thesis
    using cutoff_idx_error by blast
next
  case False
  then show ?thesis
    using assms by (simp add: split_groups_def sort_values_KeyError)
qed

lemma upper_size_le:
  assumes "split_groups argsort data p1 = Inr (upper1, lower1)"
    and "split_groups argsort data p2 = Inr (upper2, lower2)"
    and "p1 \<le> p2"
  shows "length (rows upper1) \<le> length (rows upper2)"
proof -
  from assms(1) obtain ds c1 where ds: "sort_values argsort data ''2021_GDP'' = Inr ds"
    and c1: "cutoff_idx (length (rows ds)) p1 = Inr c1"
    and u1: "upper1 = ds\<lparr>rows := take (nat c1) (rows ds)\<rparr>"
    by (rule split_groups_InrD)
  from assms(2) obtain ds' c2 where ds': "sort_values argsort data ''2021_GDP'' = Inr ds'"
    and c2: "cutoff_idx (length (rows ds')) p2 = Inr c2"
    and u2: "upper2 = ds'\<lparr>rows := take (nat c2) (rows ds')\<rparr>"
    by (rule split_groups_InrD)
  have same: "ds' = ds"
    using ds ds' by simp
  have "c1 \<le> c2"
    using c1 c2 [unfolded same] assms(3) by (rule cutoff_idx_mono)
  then have "nat c1 \<le> nat c2"
    by simp
  then show ?thesis
    by (simp add: u1 u2 same min_le_iff_disj)
qed

lemma split_rank_order_lemma:
  assumes "argsort_sorts argsort" "split_groups argsort data p = Inr (upper, lower)"
  shows "\<forall>u\<in>set (rows upper). \<forall>l\<in>set (rows lower).
    l ''2021_GDP'' = None \<or> cell_ge (u ''2021_GDP'') (l ''2021_GDP'')"
proof -
  from assms(2) obtain ds c where ds: "sort_values argsort data ''2021_GDP'' = Inr ds"
    and u: "upper = ds\<lparr>rows := take (nat c) (rows ds)\<rparr>"
    and l: "lower = ds\<lparr>rows := drop (nat c) (rows ds)\<rparr>"
    by (rule split_groups_InrD)
  have "sorted_wrt rank_order (map (\<lambda>r. r ''2021_GDP'') (rows ds))"
    using assms(1) ds by (rule sort_values_props)
  then have "sorted_wrt rank_order (map (\<lambda>r. r ''2021_GDP'') (take (nat c) (rows ds) @ drop (nat c) (rows ds)))"
    by simp
  then have "\<forall>u\<in>set (take (nat c) (rows ds)). \<forall>l\<in>set (drop (nat c) (rows ds)).
      rank_order (u ''2021_GDP'') (l ''2021_GDP'')"
    unfolding map_append sorted_wrt_append by simp
  then show ?thesis
    by (simp add: u l rank_order_iff)
qed

section \<open>The example frames, evaluated\<close>

lemma nargsort_four: "nargsort stable_argsort [Some 3, None, Some 7, Some 3] = [2, 0, 3, 1]"
  by (simp add: nargsort_def stable_argsort_def upt_rec)

lemma sort_four_rows:
  "sort_values stable_argsort four_rows ''2021_GDP'' =
   Inr (he_frame [he_row (Some 7) (Some 3) (Some 5), he_row (Some 3) (Some 1) (Some 2),
                  he_row (Some 3) None (Some 4), he_row None (Some 2) None])"
  by (simp add: sort_values_def get_column_def four_rows_def he_frame_def nargsort_four)
    (simp add: he_row_def nargsort_four)

lemma raw_cutoff_4: "trunc_int (raw_cutoff 4 25) = 1" "trunc_int (raw_cutoff 4 50) = 2"
  "trunc_int (raw_cutoff 4 75) = 3"
  by code_simp+

lemma cutoff_4: "cutoff_idx 4 25 = Inr 1" "cutoff_idx 4 50 = Inr 2" "cutoff_idx 4 75 = Inr 3"
  by (subst cutoff_idx_eq; simp add: raw_cutoff_4)+

lemma Suc4: "Suc (Suc (Suc (Suc 0))) = 4"
  by simp

lemma split_four_rows:
  "split_groups stable_argsort four_rows 25 =
     Inr (he_frame [he_row (Some 7) (Some 3) (Some 5)],
          he_frame [he_row (Some 3) (Some 1) (Some 2), he_row (Some 3) None (Some 4),
                    he_row None (Some 2) None])"
  "split_groups stable_argsort four_rows 50 =
     Inr (he_frame [he_row (Some 7) (Some 3) (Some 5), he_row (Some 3) (Some 1) (Some 2)],
          he_frame [he_row (Some 3) None (Some 4), he_row None (Some 2) None])"
  "split_groups stable_argsort four_rows 75 =
     Inr (he_frame [he_row (Some 7) (Some 3) (Some 5), he_row (Some 3) (Some 1) (Some 2),
                    he_row (Some 3) None (Some 4)],
          he_frame [he_row None (Some 2) None])"
  by (simp_all add: split_groups_def sort_four_rows he_frame_def Suc4 cutoff_4
      iloc_upto_def iloc_from_def slice_bound_def)

lemma sort_nan_rank_rows:
  "sort_values stable_argsort nan_rank_rows ''2021_GDP'' = Inr nan_rank_rows"
proof -
  have "nargsort stable_argsort [Some 5, None] = [0, 1]"
    by (simp add: nargsort_def stable_argsort_def upt_rec)
  then show ?thesis
    by (simp add: sort_values_def get_column_def nan_rank_rows_def he_frame_def)
      (simp add: he_row_def)
qed

lemma raw_cutoff_2: "trunc_int (raw_cutoff 2 50) = 1"
  by code_simp

lemma ten_rows_facts:
  "''2021_GDP'' \<in> set (columns ten_rows)" "length (rows ten_rows) = 10"
  by (simp_all add: ten_rows_def he_frame_def)

lemma ninety_rows_facts:
  "''2021_GDP'' \<in> set (columns ninety_rows)" "length (rows ninety_rows) = 90"
  by (simp_all add: ninety_rows_def he_frame_def)

lemma raw_cutoff_90: "trunc_int (raw_cutoff 90 70) = 62"
  by code_simp

lemma cutoff_90: "cutoff_idx 90 70 = Inr 62"
  by (subst cutoff_idx_eq) (simp_all add: raw_cutoff_90)

section \<open>The analysis of a group\<close>

lemma dropna_simps [simp]:
  "dropna [] = []" "dropna (Some x # xs) = x # dropna xs" "dropna (None # xs) = dropna xs"
  by (simp_all add: dropna_def List.map_filter_simps)







lemma describe_Inr:
  assumes "col \<noteq> []"
  shows "describe col =
    Inr \<lparr> st_mean = series_mean col,
          st_standard_error = fdiv (series_std col) (Fin (sqrt (real (length col)))),
          st_median = series_median col,
          st_standard_deviation = series_std col,
          st_sample_variance = series_var col,
          st_kurtosis = series_kurt col,
          st_skewness = series_skew col,
          st_range = fsub (series_max col) (series_min col),
          st_minimum = series_min col,
          st_maximum = series_max col,
          st_sum = series_sum col,
          st_count = series_count col \<rparr>"
  using assms by (simp add: describe_def standard_error_def)

lemma describe_empty: "describe [] = Inl ZeroDivisionError"
  by (simp add: describe_def standard_error_def)

lemma analyze_group_Inr:
  assumes "''2021_HE'' \<in> set (columns g)" "''2019_HE'' \<in> set (columns g)" "rows g \<noteq> []"
  shows "\<exists>stats_2019 stats_2021.
    describe (map (\<lambda>r. r ''2019_HE'') (rows g)) = Inr stats_2019 \<and>
    describe (map (\<lambda>r. r ''2021_HE'') (rows g)) = Inr stats_2021 \<and>
    analyze_group t_pvalue g =
    (let he_2021 = map (\<lambda>r. r ''2021_HE'') (rows g);
         he_2019 = map (\<lambda>r. r ''2019_HE'') (rows g);
         t_test_result = ttest_ind t_pvalue he_2021 he_2019;
         one_tailed_pvalue = fdiv (tt_pvalue t_test_result) (Fin 2)
     in Inr \<lparr> gr_data = g,
              gr_pvalue = one_tailed_pvalue,
              gr_statistic = tt_statistic t_test_result,
              gr_significant =
                (flt one_tailed_pvalue (Fin (5 / 100)) \<and>
                 fgt (tt_statistic t_test_result) (Fin 0)),
              gr_stats = [(''2019_HE'', stats_2019), (''2021_HE'', stats_2021)] \<rparr>)"
  using assms by (simp add: analyze_group_def get_column_def Let_def describe_Inr)

lemma analyze_group_no_rows:
  assumes "''2021_HE'' \<in> set (columns g)" "''2019_HE'' \<in> set (columns g)" "rows g = []"
  shows "analyze_group t_pvalue g = Inl ZeroDivisionError"
  using assms by (simp add: analyze_group_def get_column_def Let_def describe_empty)

lemma analyze_group_KeyError:
  "''2021_HE'' \<notin> set (columns g) \<Longrightarrow> analyze_group t_pvalue g = Inl (KeyError ''2021_HE'')"
  "''2021_HE'' \<in> set (columns g) \<Longrightarrow> ''2019_HE'' \<notin> set (columns g) \<Longrightarrow>
     analyze_group t_pvalue g = Inl (KeyError ''2019_HE'')"
  by (simp_all add: analyze_group_def get_column_def)

lemma describe_no_values:
  assumes "series_count col = 0" "col \<noteq> []"
  shows "describe col =
    Inr \<lparr> st_mean = NaN, st_standard_error = NaN, st_median = NaN, st_standard_deviation = NaN,
      st_sample_variance = NaN, st_kurtosis = NaN, st_skewness = NaN, st_range = NaN,
      st_minimum = NaN, st_maximum = NaN, st_sum = Fin 0, st_count = 0 \<rparr>"
proof -
  have d: "dropna col = []"
    using assms(1) by (simp add: series_count_def)
  show ?thesis
    unfolding describe_Inr [OF assms(2)]
    by (simp add: series_mean_def series_std_def series_var_def
        series_median_def series_kurt_def series_skew_def series_min_def series_max_def
        series_sum_def series_count_def d Let_def)
qed

lemma describe_error: "describe col = Inl e \<Longrightarrow> e = ZeroDivisionError"
  by (simp add: describe_def standard_error_def split: if_splits)

lemma analyze_group_error:
  assumes "analyze_group t_pvalue g = Inl e"
  shows "e = KeyError ''2021_HE'' \<or> e = KeyError ''2019_HE'' \<or> e = ZeroDivisionError"
  using assms describe_error
  by (auto simp: analyze_group_def get_column_def Let_def split: if_splits sum.splits)

lemma analyze_split_error:
  assumes "analyze_split argsort t_pvalue data p = Inl e"
    and "split_groups argsort data p = Inr (upper, lower)"
  shows "e = KeyError ''2021_HE'' \<or> e = KeyError ''2019_HE'' \<or> e = ZeroDivisionError"
proof (cases "analyze_group t_pvalue upper")
  case (Inl e')
  then have "e' = e"
    using assms by (simp add: analyze_split_def)
  then show ?thesis
    using analyze_group_error [OF Inl] by simp
next
  case (Inr ru)
  then obtain e' where l: "analyze_group t_pvalue lower = Inl e'" and "e' = e"
    using assms by (auto simp: analyze_split_def split: sum.splits)
  then show ?thesis
    using analyze_group_error [OF l] by simp
qed

lemma analyze_split_missing:
  assumes "c \<in> {''2021_GDP'', ''2019_HE'', ''2021_HE''}" "c \<notin> set (columns data)"
  shows "\<exists>e. analyze_split argsort t_pvalue data p = Inl e \<and>
    (e = OverflowError \<or>
     (\<exists>c'. e = KeyError c' \<and> c' \<in> {''2021_GDP'', ''2019_HE'', ''2021_HE''} \<and>
           c' \<notin> set (columns data)))"
proof (cases "split_groups argsort data p")
  case (Inl e)
  then show ?thesis
    using split_groups_error [OF Inl] by (auto simp: analyze_split_def)
next
  case (Inr ul)
  obtain upper lower where ul: "ul = (upper, lower)"
    by (cases ul)
  have cols: "columns upper = columns data"
    using Inr ul split_groups_columns(1) by blast
  have rank: "''2021_GDP'' \<in> set (columns data)"
  proof (rule ccontr)
    assume "''2021_GDP'' \<notin> set (columns data)"
    then show False
      using Inr by (simp add: split_groups_def sort_values_KeyError)
  qed
  show ?thesis
  proof (cases "''2021_HE'' \<in> set (columns data)")
    case True
    then have "''2019_HE'' \<notin> set (columns data)"
      using assms rank by auto
    then have "analyze_group t_pvalue upper = Inl (KeyError ''2019_HE'')"
      using True cols by (simp add: analyze_group_KeyError)
    then show ?thesis
      using Inr ul \<open>''2019_HE'' \<notin> set (columns data)\<close> by (simp add: analyze_split_def)
  next
    case False
    then have "analyze_group t_pvalue upper = Inl (KeyError ''2021_HE'')"
      using cols by (simp add: analyze_group_KeyError)
    then show ?thesis
      using Inr ul False by (simp add: analyze_split_def)
  qed
qed

section \<open>The example groups, evaluated\<close>





lemma nan_he_columns:
  "''2021_HE'' \<in> set (columns nan_he_rows)" "''2019_HE'' \<in> set (columns nan_he_rows)"
  "map (\<lambda>r. r ''2021_HE'') (rows nan_he_rows) = [None, None]"
  by (simp_all add: nan_he_rows_def he_frame_def he_row_def)

lemma four_rows_he_2019:
  "get_column four_rows ''2019_HE'' = Inr [Some 1, Some 2, Some 3, None]"
  by (simp add: get_column_def four_rows_def he_frame_def he_row_def)

lemma no_he_facts:
  "''2021_HE'' \<notin> set (columns no_he_rows)" "''2021_GDP'' \<in> set (columns no_he_rows)"
  "length (rows no_he_rows) = 2"
  by (simp_all add: no_he_rows_def)

section \<open>The claims\<close>

text \<open>
  C1, as amended. For every frame with the rank column and at least 2 (and at most
  \<open>2^500\<close>) rows, and every integer percentile of magnitude at most \<open>2^500\<close>, in or
  out of the range 0 to 100, the split returns two groups whose sizes sum to the size of
  the frame, each with at least one row.
\<close>

theorem split_sizes:
  assumes "argsort_sorts argsort" "''2021_GDP'' \<in> set (columns data)"
    and "2 \<le> length (rows data)" "length (rows data) \<le> 2 ^ 500" "\<bar>p\<bar> \<le> 2 ^ 500"
  shows "\<exists>upper lower. split_groups argsort data p = Inr (upper, lower) \<and>
    length (rows upper) + length (rows lower) = length (rows data) \<and>
    1 \<le> length (rows upper) \<and> 1 \<le> length (rows lower)"
proof -
  obtain upper lower where s: "split_groups argsort data p = Inr (upper, lower)"
    using split_groups_returns [OF assms(1,2,4,5)] by blast
  then obtain ds c where ds: "sort_values argsort data ''2021_GDP'' = Inr ds"
    and c: "cutoff_idx (length (rows ds)) p = Inr c"
    and u: "upper = ds\<lparr>rows := take (nat c) (rows ds)\<rparr>"
    and l: "lower = ds\<lparr>rows := drop (nat c) (rows ds)\<rparr>"
    by (rule split_groups_InrD)
  have n: "length (rows ds) = length (rows data)"
    using assms(1) ds by (rule sort_values_props)
  have "1 \<le> c" "c \<le> int (length (rows data)) - 1"
    using cutoff_idx_range [OF c] assms(3) n by simp_all
  then have "length (rows upper) + length (rows lower) = length (rows data)"
    "1 \<le> length (rows upper)" "1 \<le> length (rows lower)"
    using n by (simp_all add: u l)
  with s show ?thesis by blast
qed

theorem split_sizes_witness:
  "argsort_sorts stable_argsort \<and> ''2021_GDP'' \<in> set (columns two_rows) \<and>
   2 \<le> length (rows two_rows) \<and> length (rows two_rows) \<le> 2 ^ 500 \<and> \<bar>50 :: int\<bar> \<le> 2 ^ 500 \<and>
   (\<exists>upper lower. split_groups stable_argsort two_rows 50 = Inr (upper, lower) \<and>
      length (rows upper) + length (rows lower) = 2 \<and>
      1 \<le> length (rows upper) \<and> 1 \<le> length (rows lower))"
proof -
  have h: "''2021_GDP'' \<in> set (columns two_rows)" "2 \<le> length (rows two_rows)"
    "length (rows two_rows) \<le> 2 ^ 500" "\<bar>50 :: int\<bar> \<le> 2 ^ 500"
    by (simp_all add: two_rows_def he_frame_def)
  have n: "length (rows two_rows) = 2"
    by (simp add: two_rows_def he_frame_def)
  show ?thesis
    using split_sizes [OF stable_argsort_sorts h] stable_argsort_sorts h
    unfolding n by blast
qed

text \<open>
  C1 as stated fails for a percentile that is too large: on a frame of two rows and the
  percentile \<open>10^310\<close>, the quotient \<open>10^310 / 100\<close> is the finite float \<open>1e308\<close>, the
  product with the length 2 is infinite, and \<^verbatim>\<open>int\<close> raises \<^verbatim>\<open>OverflowError\<close>.
\<close>

theorem split_overflow_counterexample:
  "2 \<le> length (rows two_rows) \<and>
   split_groups stable_argsort two_rows (10 ^ 310) = Inl OverflowError"
proof -
  obtain ds where ds: "sort_values stable_argsort two_rows ''2021_GDP'' = Inr ds"
    and n: "length (rows ds) = length (rows two_rows)"
    using length_rows_sorted [OF stable_argsort_sorts, of "''2021_GDP''" two_rows]
    by (auto simp: two_rows_def he_frame_def)
  have n2: "length (rows ds) = 2"
    unfolding n by (simp add: two_rows_def he_frame_def)
  have "cutoff_idx 2 (10 ^ 310) = Inl OverflowError"
    by (rule cutoff_idx_overflow) simp_all
  then have "split_groups stable_argsort two_rows (10 ^ 310) = Inl OverflowError"
    by (simp add: split_groups_def ds n2)
  moreover have "2 \<le> length (rows two_rows)"
    by (simp add: two_rows_def he_frame_def)
  ultimately show ?thesis by simp
qed

text \<open>
  C2, as amended. For every frame with the rank column and at least 2 rows, and every
  integer percentile \<open>p\<close> with \<open>len * |p| < 2^50\<close>, the split sorts the rows by rank,
  descending with the missing ranks last, and returns the first \<open>c\<close> sorted rows and the
  remaining ones, where \<open>c\<close> is the clamped truncation of the binary64 product
  \<open>len * (p / 100)\<close>. It lies in the range from 1 to \<open>len - 1\<close>, and it is the cutoff of
  the specification, \<open>floor(len * p / 100)\<close> clamped, or one less: the two agree whenever
  \<open>len * p\<close> is not a multiple of 100 and whenever \<open>p\<close> is one. In particular, on a frame
  of 10 rows the percentile 0 gives an upper group of 1 row and the percentile 100 a lower
  group of 1 row.
\<close>

theorem split_cutoff:
  assumes "argsort_sorts argsort" "''2021_GDP'' \<in> set (columns data)"
    and "2 \<le> length (rows data)" "length (rows data) < 2 ^ 53"
    and "int (length (rows data)) * \<bar>p\<bar> < 2 ^ 50"
  shows "\<exists>ds c. sort_values argsort data ''2021_GDP'' = Inr ds \<and>
    mset (rows ds) = mset (rows data) \<and>
    sorted_wrt rank_order (map (\<lambda>r. r ''2021_GDP'') (rows ds)) \<and>
    split_groups argsort data p =
      Inr (ds\<lparr>rows := take (nat c) (rows ds)\<rparr>, ds\<lparr>rows := drop (nat c) (rows ds)\<rparr>) \<and>
    1 \<le> c \<and> c \<le> int (length (rows data)) - 1 \<and>
    spec_cutoff (length (rows data)) p - 1 \<le> c \<and> c \<le> spec_cutoff (length (rows data)) p \<and>
    (\<not> 100 dvd int (length (rows data)) * p \<longrightarrow> c = spec_cutoff (length (rows data)) p) \<and>
    (100 dvd p \<longrightarrow> c = spec_cutoff (length (rows data)) p) \<and>
    (length (rows data) = 10 \<and> p = 0 \<longrightarrow>
       length (take (nat c) (rows ds)) = 1 \<and> length (drop (nat c) (rows ds)) = 9) \<and>
    (length (rows data) = 10 \<and> p = 100 \<longrightarrow>
       length (take (nat c) (rows ds)) = 9 \<and> length (drop (nat c) (rows ds)) = 1)"
proof -
  obtain ds where ds: "sort_values argsort data ''2021_GDP'' = Inr ds"
    using sort_values_Inr [OF assms(2)] by blast
  note props = sort_values_props [OF assms(1) ds]
  obtain c where c: "cutoff_idx (length (rows data)) p = Inr c"
    and r: "1 \<le> c" "c \<le> int (length (rows data)) - 1"
    and near: "spec_cutoff (length (rows data)) p - 1 \<le> c"
      "c \<le> spec_cutoff (length (rows data)) p"
      "\<not> 100 dvd int (length (rows data)) * p \<longrightarrow> c = spec_cutoff (length (rows data)) p"
      "100 dvd p \<longrightarrow> c = spec_cutoff (length (rows data)) p"
    using cutoff_idx_near_spec [OF assms(3,4,5)] by blast
  have s: "split_groups argsort data p =
      Inr (ds\<lparr>rows := take (nat c) (rows ds)\<rparr>, ds\<lparr>rows := drop (nat c) (rows ds)\<rparr>)"
    using r(1) by (simp add: split_groups_def ds props(1) c iloc_upto_def iloc_from_def
        slice_bound_pos)
  have z: "length (take (nat c) (rows ds)) = 1 \<and> length (drop (nat c) (rows ds)) = 9"
    if "length (rows data) = 10 \<and> p = 0"
  proof -
    have "c = spec_cutoff 10 0"
      using near(4) that by simp
    then have "c = 1"
      by (simp add: spec_cutoff_def)
    then show ?thesis
      using that props(1) by simp
  qed
  have h: "length (take (nat c) (rows ds)) = 9 \<and> length (drop (nat c) (rows ds)) = 1"
    if "length (rows data) = 10 \<and> p = 100"
  proof -
    have "c = spec_cutoff 10 100"
      using near(4) that by simp
    then have "c = 9"
      by (simp add: spec_cutoff_def)
    then show ?thesis
      using that props(1) by simp
  qed
  show ?thesis
    using ds props(2,3) s r near z h by blast
qed

theorem split_cutoff_witness:
  "argsort_sorts stable_argsort \<and> ''2021_GDP'' \<in> set (columns ten_rows) \<and>
   2 \<le> length (rows ten_rows) \<and> length (rows ten_rows) < 2 ^ 53 \<and>
   int (length (rows ten_rows)) * \<bar>100\<bar> < 2 ^ 50 \<and>
   (\<exists>ds c. sort_values stable_argsort ten_rows ''2021_GDP'' = Inr ds \<and>
      split_groups stable_argsort ten_rows 100 =
        Inr (ds\<lparr>rows := take (nat c) (rows ds)\<rparr>, ds\<lparr>rows := drop (nat c) (rows ds)\<rparr>) \<and>
      c = spec_cutoff 10 100 \<and> c = 9 \<and>
      length (take (nat c) (rows ds)) = 9 \<and> length (drop (nat c) (rows ds)) = 1)"
proof -
  have h: "2 \<le> length (rows ten_rows)" "length (rows ten_rows) < 2 ^ 53"
    "int (length (rows ten_rows)) * \<bar>100\<bar> < 2 ^ 50"
    by (simp_all add: ten_rows_facts)
  have s: "spec_cutoff 10 100 = 9"
    by (simp add: spec_cutoff_def)
  obtain ds c where ds: "sort_values stable_argsort ten_rows ''2021_GDP'' = Inr ds"
    and sp: "split_groups stable_argsort ten_rows 100 =
        Inr (ds\<lparr>rows := take (nat c) (rows ds)\<rparr>, ds\<lparr>rows := drop (nat c) (rows ds)\<rparr>)"
    and c: "100 dvd (100 :: int) \<longrightarrow> c = spec_cutoff (length (rows ten_rows)) 100"
    and l: "length (rows ten_rows) = 10 \<and> (100 :: int) = 100 \<longrightarrow>
       length (take (nat c) (rows ds)) = 9 \<and> length (drop (nat c) (rows ds)) = 1"
    using split_cutoff [OF stable_argsort_sorts ten_rows_facts(1) h] by blast
  have c9: "c = spec_cutoff 10 100" "c = 9"
    using c by (simp_all add: ten_rows_facts s)
  have "length (take (nat c) (rows ds)) = 9 \<and> length (drop (nat c) (rows ds)) = 1"
    using l by (simp add: ten_rows_facts)
  with ds sp c9 have "\<exists>ds c. sort_values stable_argsort ten_rows ''2021_GDP'' = Inr ds \<and>
      split_groups stable_argsort ten_rows 100 =
        Inr (ds\<lparr>rows := take (nat c) (rows ds)\<rparr>, ds\<lparr>rows := drop (nat c) (rows ds)\<rparr>) \<and>
      c = spec_cutoff 10 100 \<and> c = 9 \<and>
      length (take (nat c) (rows ds)) = 9 \<and> length (drop (nat c) (rows ds)) = 1"
    by blast
  then show ?thesis
    using stable_argsort_sorts ten_rows_facts(1) h by blast
qed

text \<open>
  C2 as stated fails where the rounding of binary64 shows: on a frame of 90 rows at the
  percentile 70, \<open>floor(90 * 70 / 100)\<close> is 63, but \<open>70 / 100\<close> rounds to a float below
  0.7, the product is \<open>62.99999999999999\<close>, and the upper group has 62 rows.
\<close>

theorem split_cutoff_counterexample:
  "2 \<le> length (rows ninety_rows) \<and>
   spec_cutoff (length (rows ninety_rows)) 70 = 63 \<and>
   (\<exists>upper lower. split_groups stable_argsort ninety_rows 70 = Inr (upper, lower) \<and>
      length (rows upper) = 62 \<and> length (rows lower) = 28)"
proof -
  obtain ds where ds: "sort_values stable_argsort ninety_rows ''2021_GDP'' = Inr ds"
    and n: "length (rows ds) = length (rows ninety_rows)"
    using length_rows_sorted [OF stable_argsort_sorts ninety_rows_facts(1)] by blast
  have n90: "length (rows ds) = 90"
    using n by (simp add: ninety_rows_facts)
  have "split_groups stable_argsort ninety_rows 70 = Inr (iloc_upto 62 ds, iloc_from 62 ds)"
    by (simp add: split_groups_def ds n90 cutoff_90)
  moreover have "length (rows (iloc_upto 62 ds)) = 62" "length (rows (iloc_from 62 ds)) = 28"
    by (simp_all add: iloc_upto_def iloc_from_def slice_bound_def n90)
  moreover have "spec_cutoff (length (rows ninety_rows)) 70 = 63"
    by (simp add: spec_cutoff_def ninety_rows_facts)
  ultimately show ?thesis
    by (simp add: ninety_rows_facts)
qed



text \<open>
  C4 fails on the code. Line 51 divides the standard deviation of the values that are
  present by the square root of \<^verbatim>\<open>len(group[year])\<close>, the number of rows of the group,
  not by that of the number of values present. The column \<^verbatim>\<open>2019_HE\<close> of the frame
  \<open>four_rows\<close> holds 1, 2, 3 and a missing cell: its standard deviation is 1 and its count
  is 3, and the code reports the standard error \<open>1 / sqrt 4 = 1/2\<close> where the claim has
  \<open>1 / sqrt 3\<close>.
\<close>

theorem standard_error_uses_row_count:
  "get_column four_rows ''2019_HE'' = Inr [Some 1, Some 2, Some 3, None] \<and>
   (\<exists>s. describe [Some 1, Some 2, Some 3, None] = Inr s \<and>
      st_standard_deviation s = Fin 1 \<and> st_count s = 3 \<and>
      st_standard_error s = Fin (1 / 2)) \<and>
   fdiv (Fin 1) (Fin (sqrt 3)) \<noteq> Fin (1 / 2)"
proof -
  have v: "series_var [Some 1, Some 2, Some 3, None] = Fin 1"
    by (simp add: series_var_def moment_sum_def mean_of_def)
  have s: "series_std [Some 1, Some 2, Some 3, None] = Fin 1"
    by (simp add: series_std_def v)
  have d: "\<exists>s. describe [Some 1, Some 2, Some 3, None] = Inr s \<and>
      st_standard_deviation s = Fin 1 \<and> st_count s = 3 \<and>
      st_standard_error s = Fin (1 / 2)"
    by (simp add: describe_Inr s series_count_def)
  have "sqrt 3 \<noteq> 2"
  proof
    assume "sqrt 3 = 2"
    then have "(sqrt 3)\<^sup>2 = 2\<^sup>2" by simp
    then show False by simp
  qed
  then have "fdiv (Fin 1) (Fin (sqrt 3)) \<noteq> Fin (1 / 2)"
    by (simp add: field_simps)
  with d show ?thesis
    using four_rows_he_2019 by blast
qed

text \<open>
  C5 fails on the code. Nothing checks the size of the frame. On the frame \<open>one_row\<close> (one
  row) at the percentile 50 the clamp of line 29, whose comment is "Ensure we have at
  least one element in each group", gives the cutoff 1, so lines 32 and 33 return the one
  row as the upper group and an empty lower group; the analysis of the empty group then
  divides by \<^verbatim>\<open>0 ** 0.5\<close> at line 51, and the caller gets a
  \<^verbatim>\<open>ZeroDivisionError\<close> where the claim has an error for insufficient data.
\<close>

theorem one_row_empty_group:
  "length (rows one_row) < 2 \<and>
   (\<exists>upper lower. split_groups stable_argsort one_row 50 = Inr (upper, lower) \<and>
      length (rows upper) = 1 \<and> rows lower = []) \<and>
   analyze_split stable_argsort student_t2_pvalue one_row 50 = Inl ZeroDivisionError"
proof -
  have h: "''2021_GDP'' \<in> set (columns one_row)" "length (rows one_row) \<le> 2 ^ 500"
    "\<bar>50 :: int\<bar> \<le> 2 ^ 500"
    by (simp_all add: one_row_def he_frame_def)
  have he: "''2021_HE'' \<in> set (columns one_row)" "''2019_HE'' \<in> set (columns one_row)"
    by (simp_all add: one_row_def he_frame_def)
  have n: "length (rows one_row) = 1"
    by (simp add: one_row_def he_frame_def)
  obtain upper lower where s: "split_groups stable_argsort one_row 50 = Inr (upper, lower)"
    using split_groups_returns [OF stable_argsort_sorts h] by blast
  then obtain ds c where ds: "sort_values stable_argsort one_row ''2021_GDP'' = Inr ds"
    and c: "1 \<le> c"
    and u: "upper = ds\<lparr>rows := take (nat c) (rows ds)\<rparr>"
    and l: "lower = ds\<lparr>rows := drop (nat c) (rows ds)\<rparr>"
    by (rule split_groups_InrD)
  have len: "length (rows ds) = 1"
    using sort_values_props(1) [OF stable_argsort_sorts ds] n by simp
  have lo: "rows lower = []"
    using c len by (simp add: l)
  have up: "length (rows upper) = 1"
    using c len by (simp add: u)
  then have une: "rows upper \<noteq> []"
    by auto
  have cols: "columns upper = columns one_row" "columns lower = columns one_row"
    using split_groups_columns [OF s] by simp_all
  obtain ru where ru: "analyze_group student_t2_pvalue upper = Inr ru"
    using analyze_group_Inr [of upper student_t2_pvalue] he une
    by (auto simp: cols Let_def)
  have rl: "analyze_group student_t2_pvalue lower = Inl ZeroDivisionError"
    using he lo by (intro analyze_group_no_rows) (simp_all add: cols)
  have "analyze_split stable_argsort student_t2_pvalue one_row 50 = Inl ZeroDivisionError"
    by (simp add: analyze_split_def s ru rl)
  with s up lo n show ?thesis
    by simp
qed

text \<open>
  C6, as amended. For every frame that lacks one of the three columns the analysis reads,
  the request fails and the error reaches the caller. The error is Python's
  \<^verbatim>\<open>KeyError\<close> for a missing required column (the code defines no
  \<^verbatim>\<open>MissingColumnError\<close>) for every percentile of magnitude at most \<open>2^500\<close>; for a
  larger one the cutoff computation of line 26, which runs before the columns of the
  groups are read, can fail first with \<^verbatim>\<open>OverflowError\<close>.
\<close>

theorem missing_column_fails:
  assumes "c \<in> {''2021_GDP'', ''2019_HE'', ''2021_HE''}" "c \<notin> set (columns data)"
  shows "(\<exists>e. analyze_split argsort t_pvalue data p = Inl e \<and>
      (e = OverflowError \<or>
       (\<exists>c'. e = KeyError c' \<and> c' \<in> {''2021_GDP'', ''2019_HE'', ''2021_HE''} \<and>
             c' \<notin> set (columns data)))) \<and>
    (argsort_sorts argsort \<and> length (rows data) \<le> 2 ^ 500 \<and> \<bar>p\<bar> \<le> 2 ^ 500 \<longrightarrow>
      (\<exists>c'. analyze_split argsort t_pvalue data p = Inl (KeyError c') \<and>
            c' \<in> {''2021_GDP'', ''2019_HE'', ''2021_HE''} \<and> c' \<notin> set (columns data)))"
proof (intro conjI impI)
  show fails: "\<exists>e. analyze_split argsort t_pvalue data p = Inl e \<and>
      (e = OverflowError \<or>
       (\<exists>c'. e = KeyError c' \<and> c' \<in> {''2021_GDP'', ''2019_HE'', ''2021_HE''} \<and>
             c' \<notin> set (columns data)))"
    using assms by (rule analyze_split_missing)
  assume b: "argsort_sorts argsort \<and> length (rows data) \<le> 2 ^ 500 \<and> \<bar>p\<bar> \<le> 2 ^ 500"
  show "\<exists>c'. analyze_split argsort t_pvalue data p = Inl (KeyError c') \<and>
            c' \<in> {''2021_GDP'', ''2019_HE'', ''2021_HE''} \<and> c' \<notin> set (columns data)"
  proof (cases "''2021_GDP'' \<in> set (columns data)")
    case True
    with b obtain upper lower where "split_groups argsort data p = Inr (upper, lower)"
      using split_groups_returns [of argsort data p] by blast
    then have "analyze_split argsort t_pvalue data p \<noteq> Inl OverflowError"
      using analyze_split_error [of argsort t_pvalue data p OverflowError upper lower] by auto
    with fails show ?thesis by blast
  next
    case False
    then have "analyze_split argsort t_pvalue data p = Inl (KeyError ''2021_GDP'')"
      by (simp add: analyze_split_def split_groups_def sort_values_KeyError)
    with False show ?thesis by simp
  qed
qed

theorem missing_column_fails_witness:
  "''2021_HE'' \<in> {''2021_GDP'', ''2019_HE'', ''2021_HE''} \<and>
   ''2021_HE'' \<notin> set (columns no_he_rows) \<and>
   argsort_sorts stable_argsort \<and> length (rows no_he_rows) \<le> 2 ^ 500 \<and> \<bar>50 :: int\<bar> \<le> 2 ^ 500 \<and>
   analyze_split stable_argsort student_t2_pvalue no_he_rows 50 = Inl (KeyError ''2021_HE'')"
proof -
  have h: "''2021_HE'' \<in> {''2021_GDP'', ''2019_HE'', ''2021_HE''}" by simp
  have b: "argsort_sorts stable_argsort \<and> length (rows no_he_rows) \<le> 2 ^ 500 \<and>
      \<bar>50 :: int\<bar> \<le> 2 ^ 500"
    using stable_argsort_sorts by (simp add: no_he_facts)
  obtain c' where c: "analyze_split stable_argsort student_t2_pvalue no_he_rows 50 = Inl (KeyError c')"
    "c' \<in> {''2021_GDP'', ''2019_HE'', ''2021_HE''}" "c' \<notin> set (columns no_he_rows)"
    using missing_column_fails [OF h no_he_facts(1), of stable_argsort student_t2_pvalue 50] b
    by blast
  have "c' = ''2021_HE''"
    using c(2,3) by (auto simp: no_he_rows_def)
  with c(1) show ?thesis
    using h b no_he_facts(1) by simp
qed

text \<open>
  C6 as stated fails for a percentile that is too large: the frame lacks
  \<^verbatim>\<open>2021_HE\<close>, and at the percentile \<open>10^310\<close> the error is \<^verbatim>\<open>OverflowError\<close>.
\<close>

theorem missing_column_overflow_counterexample:
  "''2021_HE'' \<notin> set (columns no_he_rows) \<and>
   analyze_split stable_argsort student_t2_pvalue no_he_rows (10 ^ 310) = Inl OverflowError"
proof -
  obtain ds where ds: "sort_values stable_argsort no_he_rows ''2021_GDP'' = Inr ds"
    and n: "length (rows ds) = length (rows no_he_rows)"
    using length_rows_sorted [OF stable_argsort_sorts no_he_facts(2)] by blast
  have "cutoff_idx 2 (10 ^ 310) = Inl OverflowError"
    by (rule cutoff_idx_overflow) simp_all
  then have "split_groups stable_argsort no_he_rows (10 ^ 310) = Inl OverflowError"
    by (simp add: split_groups_def ds n no_he_facts(3))
  then show ?thesis
    using no_he_facts(1) by (simp add: analyze_split_def)
qed

text \<open>
  C8. For a fixed frame and two percentiles \<open>p1 \<le> p2\<close>, whenever the split returns at
  both, the upper group at \<open>p2\<close> has at least as many rows as the upper group at \<open>p1\<close>:
  rounding to binary64, truncation and clamping are all monotone. It does return at both
  when the frame has the rank column and at most \<open>2^500\<close> rows and the two percentiles
  have a magnitude of at most \<open>2^500\<close>.
\<close>

theorem upper_size_monotone:
  assumes "p1 \<le> p2"
  shows "(\<forall>upper1 lower1 upper2 lower2.
      split_groups argsort data p1 = Inr (upper1, lower1) \<and>
      split_groups argsort data p2 = Inr (upper2, lower2) \<longrightarrow>
      length (rows upper1) \<le> length (rows upper2)) \<and>
    (argsort_sorts argsort \<and> ''2021_GDP'' \<in> set (columns data) \<and>
     length (rows data) \<le> 2 ^ 500 \<and> \<bar>p1\<bar> \<le> 2 ^ 500 \<and> \<bar>p2\<bar> \<le> 2 ^ 500 \<longrightarrow>
      (\<exists>upper1 lower1 upper2 lower2.
         split_groups argsort data p1 = Inr (upper1, lower1) \<and>
         split_groups argsort data p2 = Inr (upper2, lower2) \<and>
         length (rows upper1) \<le> length (rows upper2)))"
proof (intro conjI allI impI)
  fix upper1 lower1 upper2 lower2
  assume "split_groups argsort data p1 = Inr (upper1, lower1) \<and>
      split_groups argsort data p2 = Inr (upper2, lower2)"
  then show "length (rows upper1) \<le> length (rows upper2)"
    using assms upper_size_le by blast
next
  assume b: "argsort_sorts argsort \<and> ''2021_GDP'' \<in> set (columns data) \<and>
     length (rows data) \<le> 2 ^ 500 \<and> \<bar>p1\<bar> \<le> 2 ^ 500 \<and> \<bar>p2\<bar> \<le> 2 ^ 500"
  then obtain upper1 lower1 where s1: "split_groups argsort data p1 = Inr (upper1, lower1)"
    using split_groups_returns [of argsort data p1] by blast
  from b obtain upper2 lower2 where s2: "split_groups argsort data p2 = Inr (upper2, lower2)"
    using split_groups_returns [of argsort data p2] by blast
  have "length (rows upper1) \<le> length (rows upper2)"
    using s1 s2 assms by (rule upper_size_le)
  with s1 s2 show "\<exists>upper1 lower1 upper2 lower2.
         split_groups argsort data p1 = Inr (upper1, lower1) \<and>
         split_groups argsort data p2 = Inr (upper2, lower2) \<and>
         length (rows upper1) \<le> length (rows upper2)"
    by blast
qed

theorem upper_size_monotone_witness:
  "(25 :: int) \<le> 75 \<and>
   split_groups stable_argsort four_rows 25 =
     Inr (he_frame [he_row (Some 7) (Some 3) (Some 5)],
          he_frame [he_row (Some 3) (Some 1) (Some 2), he_row (Some 3) None (Some 4),
                    he_row None (Some 2) None]) \<and>
   split_groups stable_argsort four_rows 75 =
     Inr (he_frame [he_row (Some 7) (Some 3) (Some 5), he_row (Some 3) (Some 1) (Some 2),
                    he_row (Some 3) None (Some 4)],
          he_frame [he_row None (Some 2) None]) \<and>
   length (rows (he_frame [he_row (Some 7) (Some 3) (Some 5)])) \<le>
   length (rows (he_frame [he_row (Some 7) (Some 3) (Some 5), he_row (Some 3) (Some 1) (Some 2),
                    he_row (Some 3) None (Some 4)]))"
proof -
  have le: "(25 :: int) \<le> 75" by simp
  have "length (rows (he_frame [he_row (Some 7) (Some 3) (Some 5)])) \<le>
   length (rows (he_frame [he_row (Some 7) (Some 3) (Some 5), he_row (Some 3) (Some 1) (Some 2),
                    he_row (Some 3) None (Some 4)]))"
    using upper_size_monotone [OF le, of stable_argsort four_rows] split_four_rows(1,3)
    by blast
  then show ?thesis
    using le split_four_rows(1,3) by blast
qed

text \<open>
  C9. For every group with the two columns and at least one row (the groups the analysis
  is specified for) in which one of the columns has no value at all, the analysis returns
  (nothing is raised), and the metrics of that column that are undefined
  without a value are NaN: mean, standard error, median, standard deviation, variance,
  kurtosis, skewness, range, minimum and maximum. The two metrics that are defined, the
  sum and the count, are 0.
\<close>

theorem no_values_stats:
  assumes "''2021_HE'' \<in> set (columns g)" "''2019_HE'' \<in> set (columns g)"
    and "c = ''2019_HE'' \<or> c = ''2021_HE''"
    and "series_count (map (\<lambda>r. r c) (rows g)) = 0"
    and "rows g \<noteq> []"
  shows "\<exists>r s. analyze_group t_pvalue g = Inr r \<and> map_of (gr_stats r) c = Some s \<and>
    st_mean s = NaN \<and> st_standard_error s = NaN \<and> st_median s = NaN \<and>
    st_standard_deviation s = NaN \<and> st_sample_variance s = NaN \<and> st_kurtosis s = NaN \<and>
    st_skewness s = NaN \<and> st_range s = NaN \<and> st_minimum s = NaN \<and> st_maximum s = NaN \<and>
    st_sum s = Fin 0 \<and> st_count s = 0"
proof -
  obtain stats_2019 stats_2021
    where s19: "describe (map (\<lambda>r. r ''2019_HE'') (rows g)) = Inr stats_2019"
      and s21: "describe (map (\<lambda>r. r ''2021_HE'') (rows g)) = Inr stats_2021"
      and r: "analyze_group t_pvalue g =
        (let he_2021 = map (\<lambda>r. r ''2021_HE'') (rows g);
             he_2019 = map (\<lambda>r. r ''2019_HE'') (rows g);
             t_test_result = ttest_ind t_pvalue he_2021 he_2019;
             one_tailed_pvalue = fdiv (tt_pvalue t_test_result) (Fin 2)
         in Inr \<lparr> gr_data = g,
                  gr_pvalue = one_tailed_pvalue,
                  gr_statistic = tt_statistic t_test_result,
                  gr_significant =
                    (flt one_tailed_pvalue (Fin (5 / 100)) \<and>
                     fgt (tt_statistic t_test_result) (Fin 0)),
                  gr_stats = [(''2019_HE'', stats_2019), (''2021_HE'', stats_2021)] \<rparr>)"
    using analyze_group_Inr [OF assms(1,2,5)] by blast
  have ne: "map (\<lambda>r. r c) (rows g) \<noteq> []"
    using assms(5) by simp
  note d = describe_no_values [OF assms(4) ne]
  from assms(3) show ?thesis
  proof
    assume c: "c = ''2019_HE''"
    show ?thesis
      unfolding r Let_def using d s19 by (simp add: c)
  next
    assume c: "c = ''2021_HE''"
    show ?thesis
      unfolding r Let_def using d s21 by (simp add: c)
  qed
qed

theorem no_values_stats_witness:
  "''2021_HE'' \<in> set (columns nan_he_rows) \<and> ''2019_HE'' \<in> set (columns nan_he_rows) \<and>
   series_count (map (\<lambda>r. r ''2021_HE'') (rows nan_he_rows)) = 0 \<and>
   rows nan_he_rows \<noteq> [] \<and>
   (\<exists>r s. analyze_group student_t2_pvalue nan_he_rows = Inr r \<and>
      map_of (gr_stats r) ''2021_HE'' = Some s \<and>
      st_mean s = NaN \<and> st_standard_error s = NaN \<and> st_median s = NaN \<and>
      st_standard_deviation s = NaN \<and> st_sample_variance s = NaN \<and> st_kurtosis s = NaN \<and>
      st_skewness s = NaN \<and> st_range s = NaN \<and> st_minimum s = NaN \<and> st_maximum s = NaN \<and>
      st_sum s = Fin 0 \<and> st_count s = 0)"
proof -
  have n: "series_count (map (\<lambda>r. r ''2021_HE'') (rows nan_he_rows)) = 0"
    by (simp add: nan_he_columns series_count_def)
  have ne: "rows nan_he_rows \<noteq> []"
    by (simp add: nan_he_rows_def he_frame_def)
  show ?thesis
    using no_values_stats [OF nan_he_columns(1,2) _ n ne, of student_t2_pvalue]
      nan_he_columns(1,2) n ne
    by simp
qed

text \<open>
  C10, as amended. In the two groups that the split returns, the rank of every row of the
  upper group is greater than or equal to the rank of every row of the lower group whose
  rank is not missing; the rows with a missing rank are sorted last. The split does
  return when the frame has the rank column and at most \<open>2^500\<close> rows and the percentile
  has a magnitude of at most \<open>2^500\<close>.
\<close>

theorem split_rank_order:
  assumes "argsort_sorts argsort"
  shows "(\<forall>upper lower. split_groups argsort data p = Inr (upper, lower) \<longrightarrow>
      (\<forall>u\<in>set (rows upper). \<forall>l\<in>set (rows lower).
         l ''2021_GDP'' = None \<or> cell_ge (u ''2021_GDP'') (l ''2021_GDP''))) \<and>
    (''2021_GDP'' \<in> set (columns data) \<and> length (rows data) \<le> 2 ^ 500 \<and> \<bar>p\<bar> \<le> 2 ^ 500 \<longrightarrow>
      (\<exists>upper lower. split_groups argsort data p = Inr (upper, lower)))"
  using split_rank_order_lemma [OF assms] split_groups_returns [OF assms, of data p]
  by blast

theorem split_rank_order_witness:
  "argsort_sorts stable_argsort \<and>
   split_groups stable_argsort four_rows 50 =
     Inr (he_frame [he_row (Some 7) (Some 3) (Some 5), he_row (Some 3) (Some 1) (Some 2)],
          he_frame [he_row (Some 3) None (Some 4), he_row None (Some 2) None]) \<and>
   cell_ge (he_row (Some 3) (Some 1) (Some 2) ''2021_GDP'')
           (he_row (Some 3) None (Some 4) ''2021_GDP'') \<and>
   he_row None (Some 2) None ''2021_GDP'' = None"
proof -
  have t: "\<forall>u\<in>set (rows (he_frame [he_row (Some 7) (Some 3) (Some 5),
        he_row (Some 3) (Some 1) (Some 2)])).
      \<forall>l\<in>set (rows (he_frame [he_row (Some 3) None (Some 4), he_row None (Some 2) None])).
        l ''2021_GDP'' = None \<or> cell_ge (u ''2021_GDP'') (l ''2021_GDP'')"
    using split_rank_order [OF stable_argsort_sorts, of four_rows 50] split_four_rows(2)
    by blast
  have "he_row None (Some 2) None ''2021_GDP'' = None"
    by (simp add: he_row_def)
  moreover have "he_row (Some 3) None (Some 4) ''2021_GDP'' = None \<or>
      cell_ge (he_row (Some 3) (Some 1) (Some 2) ''2021_GDP'')
           (he_row (Some 3) None (Some 4) ''2021_GDP'')"
    using t by (simp add: he_frame_def)
  then have "cell_ge (he_row (Some 3) (Some 1) (Some 2) ''2021_GDP'')
           (he_row (Some 3) None (Some 4) ''2021_GDP'')"
    by (simp add: he_row_def)
  ultimately show ?thesis
    using stable_argsort_sorts split_four_rows(2) by simp
qed

text \<open>
  C10 as stated fails when a rank is missing: the row without a rank is sorted last and
  ends in the lower group, and a comparison with NaN is false.
\<close>

theorem rank_dominance_counterexample:
  "2 \<le> length (rows nan_rank_rows) \<and>
   split_groups stable_argsort nan_rank_rows 50 =
     Inr (he_frame [he_row (Some 5) (Some 1) (Some 3)], he_frame [he_row None (Some 2) (Some 5)]) \<and>
   \<not> rank_dominates (he_frame [he_row (Some 5) (Some 1) (Some 3)])
                       (he_frame [he_row None (Some 2) (Some 5)])"
proof -
  have c: "cutoff_idx 2 50 = Inr 1"
    by (subst cutoff_idx_eq) (simp_all add: raw_cutoff_2)
  have n: "length (rows nan_rank_rows) = 2"
    by (simp add: nan_rank_rows_def he_frame_def)
  have "split_groups stable_argsort nan_rank_rows 50 =
     Inr (he_frame [he_row (Some 5) (Some 1) (Some 3)], he_frame [he_row None (Some 2) (Some 5)])"
    unfolding split_groups_def sort_nan_rank_rows
    by (simp add: n c iloc_upto_def iloc_from_def slice_bound_def)
      (simp add: nan_rank_rows_def he_frame_def)
  moreover have "\<not> rank_dominates (he_frame [he_row (Some 5) (Some 1) (Some 3)])
                       (he_frame [he_row None (Some 2) (Some 5)])"
    by (simp add: rank_dominates_def he_frame_def he_row_def)
  ultimately show ?thesis
    using n by simp
qed

end
